theory Spec2Isabelle
  imports Complex_Main
begin

section \<open>Time and numbers\<close>

text \<open>
  Every limiter reads the clock with \<^verbatim>\<open>time.Now()\<close>. The clock reading is an input of the
  model: each operation takes the instant \<open>now\<close> it would have read. An instant is the
  monotonic clock reading in nanoseconds and a \<^verbatim>\<open>time.Duration\<close> a number of nanoseconds.
  Go reads a monotonic clock, so that successive readings never decrease; the theorems that
  need this say so as a hypothesis on the instants.

  The two buckets hold \<^verbatim>\<open>float64\<close> levels and are modelled twice.
  \<^item> With exact real arithmetic (\<open>tb_\<close>, \<open>lb_\<close>): rounding and overflow are left out. This
    model carries the two results that do not depend on rounding, the bounds of the token
    level and the utilization of a bucket of capacity 0.
  \<^item> With binary64 arithmetic (\<open>tbf_\<close>, \<open>lbf_\<close>): every operation rounds to the nearest
    binary64 value, ties to even, with subnormal values, overflow to the infinities, and
    NaN. This model carries what depends on rounding: the contracts of \<open>AllowRequest\<close> and
    the upper bound of the water level.
\<close>

type_synonym time = int
type_synonym duration = int

definition Sub :: "time \<Rightarrow> time \<Rightarrow> duration" where
  "Sub t u = t - u"

definition Add :: "time \<Rightarrow> duration \<Rightarrow> time" where
  "Add t d = t + d"

definition After :: "time \<Rightarrow> time \<Rightarrow> bool" where
  "After t u = (t > u)"

text \<open>\<^verbatim>\<open>Duration.Seconds()\<close>: whole seconds plus the remaining nanoseconds over 1e9, which is
  the duration over 1e9.\<close>

definition Seconds :: "duration \<Rightarrow> real" where
  "Seconds d = real_of_int d / 1000000000"

datatype float64 = Finite real | PosInf | NegInf | NaN

text \<open>IEEE 754 division of two finite values (the sign of a zero is not modelled).\<close>

definition f64_div :: "real \<Rightarrow> real \<Rightarrow> float64" where
  "f64_div x y =
     (if y = 0 then (if x = 0 then NaN else if x > 0 then PosInf else NegInf)
      else Finite (x / y))"

text \<open>IEEE 754 multiplication by a finite constant.\<close>

fun f64_times :: "float64 \<Rightarrow> real \<Rightarrow> float64" where
  "f64_times (Finite x) k = Finite (x * k)"
| "f64_times PosInf k = (if k > 0 then PosInf else if k < 0 then NegInf else NaN)"
| "f64_times NegInf k = (if k > 0 then NegInf else if k < 0 then PosInf else NaN)"
| "f64_times NaN k = NaN"

section \<open>Token bucket (token-bucket.go)\<close>






text \<open>A caller's history: the public operations it invokes, each with the instant the
  operation reads from the clock.\<close>

datatype tb_call = TB_AllowRequest | TB_GetTokens




section \<open>Leaky bucket\<close>

record LeakyBucket =
  lb_capacity :: real
  lb_water :: real
  lb_leakRate :: real
  lb_lastTime :: time

definition NewLeakyBucket :: "real \<Rightarrow> real \<Rightarrow> time \<Rightarrow> LeakyBucket" where
  "NewLeakyBucket capacity leakRate now =
     \<lparr>lb_capacity = capacity, lb_water = 0, lb_leakRate = leakRate, lb_lastTime = now\<rparr>"

definition lb_leak :: "LeakyBucket \<Rightarrow> time \<Rightarrow> LeakyBucket" where
  "lb_leak lb currentTime =
     (let elapsedTime = Seconds (Sub currentTime (lb_lastTime lb));
          leaked = elapsedTime * lb_leakRate lb
      in lb\<lparr>lb_water := max 0 (lb_water lb - leaked), lb_lastTime := currentTime\<rparr>)"

definition lb_AllowRequest :: "LeakyBucket \<Rightarrow> time \<Rightarrow> bool \<times> LeakyBucket" where
  "lb_AllowRequest lb now =
     (let lb1 = lb_leak lb now
      in if lb_water lb1 < lb_capacity lb1 then (True, lb1\<lparr>lb_water := lb_water lb1 + 1\<rparr>)
         else (False, lb1))"

definition lb_GetWaterLevel :: "LeakyBucket \<Rightarrow> time \<Rightarrow> real \<times> LeakyBucket" where
  "lb_GetWaterLevel lb now = (let lb1 = lb_leak lb now in (lb_water lb1, lb1))"

definition lb_GetCapacityUsed :: "LeakyBucket \<Rightarrow> time \<Rightarrow> float64 \<times> LeakyBucket" where
  "lb_GetCapacityUsed lb now =
     (let lb1 = lb_leak lb now
      in (f64_times (f64_div (lb_water lb1) (lb_capacity lb1)) 100, lb1))"

datatype lb_call = LB_AllowRequest | LB_GetWaterLevel | LB_GetCapacityUsed

fun lb_step :: "LeakyBucket \<Rightarrow> lb_call \<times> time \<Rightarrow> LeakyBucket" where
  "lb_step lb (LB_AllowRequest, now) = snd (lb_AllowRequest lb now)"
| "lb_step lb (LB_GetWaterLevel, now) = snd (lb_GetWaterLevel lb now)"
| "lb_step lb (LB_GetCapacityUsed, now) = snd (lb_GetCapacityUsed lb now)"

fun lb_run :: "LeakyBucket \<Rightarrow> (lb_call \<times> time) list \<Rightarrow> LeakyBucket" where
  "lb_run lb [] = lb"
| "lb_run lb (c # cs) = lb_run (lb_step lb c) cs"

text \<open>A bucket of capacity 0 that holds no water.\<close>

definition lb_dry :: "LeakyBucket \<Rightarrow> bool" where
  "lb_dry lb = (lb_capacity lb = 0 \<and> lb_water lb = 0 \<and> 0 \<le> lb_leakRate lb)"

section \<open>Fixed window counter (fixed-window-counter.go)\<close>

text \<open>\<open>limit\<close> and \<open>count\<close> are Go \<^verbatim>\<open>int\<close>s. The only arithmetic on them is \<open>count++\<close> under
  the guard \<open>count < limit\<close>, which cannot overflow; they are modelled by integers.\<close>

record FixedWindowCounter =
  fwc_limit :: int
  fwc_windowSize :: duration
  fwc_count :: int
  fwc_startTime :: time

definition NewFixedWindowCounter :: "int \<Rightarrow> duration \<Rightarrow> time \<Rightarrow> FixedWindowCounter" where
  "NewFixedWindowCounter limit windowSize now =
     \<lparr>fwc_limit = limit, fwc_windowSize = windowSize, fwc_count = 0, fwc_startTime = now\<rparr>"

definition fwc_AllowRequest :: "FixedWindowCounter \<Rightarrow> time \<Rightarrow> bool \<times> FixedWindowCounter" where
  "fwc_AllowRequest fwc currentTime =
     (let fwc1 = (if Sub currentTime (fwc_startTime fwc) \<ge> fwc_windowSize fwc
                  then fwc\<lparr>fwc_startTime := currentTime, fwc_count := 0\<rparr>
                  else fwc)
      in if fwc_count fwc1 < fwc_limit fwc1
         then (True, fwc1\<lparr>fwc_count := fwc_count fwc1 + 1\<rparr>)
         else (False, fwc1))"

text \<open>The accessors take the receiver by pointer as \<open>AllowRequest\<close> does; they return the
  counter as they leave it, and their bodies assign no field.\<close>

definition fwc_GetCurrentCount :: "FixedWindowCounter \<Rightarrow> time \<Rightarrow> int \<times> FixedWindowCounter" where
  "fwc_GetCurrentCount fwc currentTime =
     (if Sub currentTime (fwc_startTime fwc) \<ge> fwc_windowSize fwc then (0, fwc)
      else (fwc_count fwc, fwc))"

definition fwc_GetTimeUntilReset ::
  "FixedWindowCounter \<Rightarrow> time \<Rightarrow> duration \<times> FixedWindowCounter" where
  "fwc_GetTimeUntilReset fwc currentTime =
     (let elapsed = Sub currentTime (fwc_startTime fwc)
      in if elapsed \<ge> fwc_windowSize fwc then (0, fwc)
         else (fwc_windowSize fwc - elapsed, fwc))"

definition fwc_GetWindowInfo ::
  "FixedWindowCounter \<Rightarrow> time \<Rightarrow> (int \<times> int \<times> duration \<times> float64) \<times> FixedWindowCounter" where
  "fwc_GetWindowInfo fwc currentTime =
     (let elapsed = Sub currentTime (fwc_startTime fwc)
      in if elapsed \<ge> fwc_windowSize fwc then ((0, fwc_limit fwc, 0, Finite 0), fwc)
         else
           (let utilization =
                  f64_times (f64_div (real_of_int (fwc_count fwc)) (real_of_int (fwc_limit fwc))) 100;
                timeRemaining = fwc_windowSize fwc - elapsed
            in ((fwc_count fwc, fwc_limit fwc, timeRemaining, utilization), fwc)))"

datatype fwc_call =
  FWC_AllowRequest | FWC_GetCurrentCount | FWC_GetTimeUntilReset | FWC_GetWindowInfo

fun fwc_step :: "FixedWindowCounter \<Rightarrow> fwc_call \<times> time \<Rightarrow> FixedWindowCounter" where
  "fwc_step fwc (FWC_AllowRequest, now) = snd (fwc_AllowRequest fwc now)"
| "fwc_step fwc (FWC_GetCurrentCount, now) = snd (fwc_GetCurrentCount fwc now)"
| "fwc_step fwc (FWC_GetTimeUntilReset, now) = snd (fwc_GetTimeUntilReset fwc now)"
| "fwc_step fwc (FWC_GetWindowInfo, now) = snd (fwc_GetWindowInfo fwc now)"

fun fwc_run :: "FixedWindowCounter \<Rightarrow> (fwc_call \<times> time) list \<Rightarrow> FixedWindowCounter" where
  "fwc_run fwc [] = fwc"
| "fwc_run fwc (c # cs) = fwc_run (fwc_step fwc c) cs"

text \<open>A caller issuing one \<open>AllowRequest\<close> at each of the given instants: the answers in
  order.\<close>

fun fwc_requests :: "FixedWindowCounter \<Rightarrow> time list \<Rightarrow> bool list" where
  "fwc_requests fwc [] = []"
| "fwc_requests fwc (now # rest) =
     fst (fwc_AllowRequest fwc now) # fwc_requests (snd (fwc_AllowRequest fwc now)) rest"

section \<open>Sliding window log (sliding-window-log.go)\<close>

text \<open>The \<^verbatim>\<open>container/list\<close> deque of instants is a list, its front the head.\<close>

record SlidingWindowLog =
  swl_limit :: int
  swl_windowSize :: duration
  swl_requests :: "time list"

text \<open>Reading \<^verbatim>\<open>Front().Value\<close> of an empty deque dereferences nil and panics.\<close>

datatype error = NilPointerDereference

definition NewSlidingWindowLog :: "int \<Rightarrow> duration \<Rightarrow> SlidingWindowLog" where
  "NewSlidingWindowLog limit windowSize =
     \<lparr>swl_limit = limit, swl_windowSize = windowSize, swl_requests = []\<rparr>"

text \<open>The loop of \<open>cleanupOldRequests\<close>: while the deque is not empty, look at the front
  only; leave if it is after the cutoff, remove it otherwise.\<close>

fun cleanup_loop :: "time \<Rightarrow> time list \<Rightarrow> time list" where
  "cleanup_loop cutoffTime [] = []"
| "cleanup_loop cutoffTime (requestTime # rest) =
     (if After requestTime cutoffTime then requestTime # rest
      else cleanup_loop cutoffTime rest)"

text \<open>Unary minus on a \<^verbatim>\<open>time.Duration\<close>, an \<^verbatim>\<open>int64\<close>: the minimum, \<open>- 2^63\<close>, has no
  positive counterpart and wraps to itself.\<close>

definition neg_duration :: "duration \<Rightarrow> duration" where
  "neg_duration d = (if d = - 9223372036854775808 then - 9223372036854775808 else - d)"

definition swl_cleanupOldRequests :: "SlidingWindowLog \<Rightarrow> time \<Rightarrow> SlidingWindowLog" where
  "swl_cleanupOldRequests swl currentTime =
     (let cutoffTime = Add currentTime (neg_duration (swl_windowSize swl))
      in swl\<lparr>swl_requests := cleanup_loop cutoffTime (swl_requests swl)\<rparr>)"

definition swl_AllowRequest :: "SlidingWindowLog \<Rightarrow> time \<Rightarrow> bool \<times> SlidingWindowLog" where
  "swl_AllowRequest swl currentTime =
     (let swl1 = swl_cleanupOldRequests swl currentTime
      in if int (length (swl_requests swl1)) < swl_limit swl1
         then (True, swl1\<lparr>swl_requests := swl_requests swl1 @ [currentTime]\<rparr>)
         else (False, swl1))"

definition swl_GetCurrentCount :: "SlidingWindowLog \<Rightarrow> time \<Rightarrow> int \<times> SlidingWindowLog" where
  "swl_GetCurrentCount swl currentTime =
     (let swl1 = swl_cleanupOldRequests swl currentTime
      in (int (length (swl_requests swl1)), swl1))"

definition swl_GetOldestRequestAge ::
  "SlidingWindowLog \<Rightarrow> time \<Rightarrow> duration \<times> SlidingWindowLog" where
  "swl_GetOldestRequestAge swl currentTime =
     (let swl1 = swl_cleanupOldRequests swl currentTime
      in case swl_requests swl1 of
           [] \<Rightarrow> (0, swl1)
         | oldestRequest # _ \<Rightarrow> (Sub currentTime oldestRequest, swl1))"

definition swl_GetTimeUntilSlotAvailable ::
  "SlidingWindowLog \<Rightarrow> time \<Rightarrow> (error + duration) \<times> SlidingWindowLog" where
  "swl_GetTimeUntilSlotAvailable swl currentTime =
     (let swl1 = swl_cleanupOldRequests swl currentTime
      in if int (length (swl_requests swl1)) < swl_limit swl1 then (Inr 0, swl1)
         else
           (case swl_requests swl1 of
              [] \<Rightarrow> (Inl NilPointerDereference, swl1)
            | oldestRequest # _ \<Rightarrow>
                (let expirationTime = Add oldestRequest (swl_windowSize swl1)
                 in if After expirationTime currentTime
                    then (Inr (Sub expirationTime currentTime), swl1)
                    else (Inr 0, swl1))))"

definition swl_GetWindowInfo ::
  "SlidingWindowLog \<Rightarrow> time \<Rightarrow> (int \<times> int \<times> float64 \<times> duration) \<times> SlidingWindowLog" where
  "swl_GetWindowInfo swl currentTime =
     (let swl1 = swl_cleanupOldRequests swl currentTime;
          count = int (length (swl_requests swl1));
          utilization = f64_times (f64_div (real_of_int count) (real_of_int (swl_limit swl1))) 100;
          oldest = (case swl_requests swl1 of
                      [] \<Rightarrow> 0
                    | oldestRequest # _ \<Rightarrow> Sub currentTime oldestRequest)
      in ((count, swl_limit swl1, utilization, oldest), swl1))"

definition swl_GetRequestTimestamps ::
  "SlidingWindowLog \<Rightarrow> time \<Rightarrow> time list \<times> SlidingWindowLog" where
  "swl_GetRequestTimestamps swl currentTime =
     (let swl1 = swl_cleanupOldRequests swl currentTime in (swl_requests swl1, swl1))"

datatype swl_call =
  SWL_AllowRequest | SWL_GetCurrentCount | SWL_GetOldestRequestAge
  | SWL_GetTimeUntilSlotAvailable | SWL_GetWindowInfo | SWL_GetRequestTimestamps

fun swl_step :: "SlidingWindowLog \<Rightarrow> swl_call \<times> time \<Rightarrow> SlidingWindowLog" where
  "swl_step swl (SWL_AllowRequest, now) = snd (swl_AllowRequest swl now)"
| "swl_step swl (SWL_GetCurrentCount, now) = snd (swl_GetCurrentCount swl now)"
| "swl_step swl (SWL_GetOldestRequestAge, now) = snd (swl_GetOldestRequestAge swl now)"
| "swl_step swl (SWL_GetTimeUntilSlotAvailable, now) = snd (swl_GetTimeUntilSlotAvailable swl now)"
| "swl_step swl (SWL_GetWindowInfo, now) = snd (swl_GetWindowInfo swl now)"
| "swl_step swl (SWL_GetRequestTimestamps, now) = snd (swl_GetRequestTimestamps swl now)"

fun swl_run :: "SlidingWindowLog \<Rightarrow> (swl_call \<times> time) list \<Rightarrow> SlidingWindowLog" where
  "swl_run swl [] = swl"
| "swl_run swl (c # cs) = swl_run (swl_step swl c) cs"

section \<open>Binary64 arithmetic\<close>

text \<open>
  A finite binary64 value is \<open>m * 2^q\<close> with \<open>\<bar>m\<bar> < 2^53\<close> and \<open>- 1074 \<le> q \<le> 971\<close>, carried
  here by the real number it denotes; \<open>float64\<close> adds the infinities and NaN. Every
  operation computes the exact result and rounds it once, to nearest with ties to even.
  Each operation of the source rounds on its own, as the amd64 compiler emits it (Go lets
  a compiler fuse \<open>x * y + z\<close> on architectures with such an instruction). The sign of a
  zero is not modelled.

  The binary exponent of a positive real, \<open>\<lfloor>log\<^sub>2 x\<rfloor>\<close>, by halving or doubling.
\<close>

function expo_up :: "real \<Rightarrow> nat" where
  "expo_up x = (if x < 2 then 0 else Suc (expo_up (x / 2)))"
  by pat_completeness auto
termination
  by (relation "measure (\<lambda>x. nat \<lceil>x\<rceil>)") (auto, linarith)

function expo_down :: "real \<Rightarrow> nat" where
  "expo_down x = (if x \<le> 0 \<or> 1 \<le> x then 0 else Suc (expo_down (2 * x)))"
  by pat_completeness auto
termination
proof (relation "measure (\<lambda>x. nat \<lceil>1 / x\<rceil>)")
  show "wf (measure (\<lambda>x. nat \<lceil>1 / x\<rceil>))" by simp
next
  fix x :: real
  assume a: "\<not> (x \<le> 0 \<or> 1 \<le> x)"
  then have x: "0 < x" "x < 1" by auto
  define y where "y = 1 / x"
  have y: "1 < y" using x by (simp add: y_def)
  then have "2 \<le> \<lceil>y\<rceil>" by linarith
  then have "2 \<le> (of_int \<lceil>y\<rceil> :: real)" by linarith
  moreover have "y \<le> of_int \<lceil>y\<rceil>" by linarith
  ultimately have "y / 2 \<le> of_int \<lceil>y\<rceil> - 1" by linarith
  then have "y / 2 \<le> of_int (\<lceil>y\<rceil> - 1)" by simp
  then have "\<lceil>y / 2\<rceil> \<le> \<lceil>y\<rceil> - 1" by (rule ceiling_le)
  moreover have "1 / (2 * x) = y / 2" by (simp add: y_def)
  ultimately have "\<lceil>1 / (2 * x)\<rceil> < \<lceil>1 / x\<rceil>"
    by (simp only: y_def [symmetric])
  moreover have "0 < \<lceil>1 / x\<rceil>" using x by simp
  ultimately have "nat \<lceil>1 / (2 * x)\<rceil> < nat \<lceil>1 / x\<rceil>" by linarith
  then show "(2 * x, x) \<in> measure (\<lambda>x. nat \<lceil>1 / x\<rceil>)"
    by (simp only: in_measure)
qed

definition expo :: "real \<Rightarrow> int" where
  "expo x = (if 1 \<le> x then int (expo_up x) else - int (expo_down x))"

text \<open>Round to the nearest integer, a tie to the even one.\<close>

definition rne :: "real \<Rightarrow> int" where
  "rne x =
     (let n = \<lfloor>x\<rfloor>; r = x - of_int n
      in if r < 1 / 2 then n else if 1 / 2 < r then n + 1 else if even n then n else n + 1)"

text \<open>The spacing of the binary64 values around \<open>x\<close> is \<open>2\<close> to the power \<open>quantum x\<close>: 52 bits
  below the exponent of \<open>x\<close>, and \<open>2^-1074\<close> throughout the subnormal range.\<close>

definition quantum :: "real \<Rightarrow> int" where
  "quantum x = max (expo \<bar>x\<bar>) (- 1022) - 52"

definition round64 :: "real \<Rightarrow> real" where
  "round64 x = of_int (rne (x / 2 powi quantum x)) * 2 powi quantum x"

text \<open>Rounding with overflow: a result that rounds to \<open>2^1024\<close> or beyond is an infinity.\<close>

definition fl :: "real \<Rightarrow> float64" where
  "fl x =
     (let y = round64 x
      in if 2 ^ 1024 \<le> y then PosInf else if y \<le> - (2 ^ 1024) then NegInf else Finite y)"

text \<open>The operations of \<^verbatim>\<open>float64\<close>, with the IEEE 754 rules for infinities and NaN.\<close>

fun f64_neg :: "float64 \<Rightarrow> float64" where
  "f64_neg (Finite x) = Finite (- x)"
| "f64_neg PosInf = NegInf"
| "f64_neg NegInf = PosInf"
| "f64_neg NaN = NaN"

fun f64_add :: "float64 \<Rightarrow> float64 \<Rightarrow> float64" where
  "f64_add (Finite x) (Finite y) = fl (x + y)"
| "f64_add NaN b = NaN"
| "f64_add a NaN = NaN"
| "f64_add PosInf NegInf = NaN"
| "f64_add NegInf PosInf = NaN"
| "f64_add PosInf b = PosInf"
| "f64_add NegInf b = NegInf"
| "f64_add (Finite x) b = b"

definition f64_sub :: "float64 \<Rightarrow> float64 \<Rightarrow> float64" where
  "f64_sub a b = f64_add a (f64_neg b)"

fun f64_mul :: "float64 \<Rightarrow> float64 \<Rightarrow> float64" where
  "f64_mul (Finite x) (Finite y) = fl (x * y)"
| "f64_mul NaN b = NaN"
| "f64_mul a NaN = NaN"
| "f64_mul (Finite x) b =
     (if x = 0 then NaN else if 0 < x then b else f64_neg b)"
| "f64_mul a (Finite y) =
     (if y = 0 then NaN else if 0 < y then a else f64_neg a)"
| "f64_mul PosInf b = b"
| "f64_mul NegInf b = f64_neg b"

text \<open>Division, rounded (\<open>f64_div\<close> above is the unrounded quotient of two finite values).\<close>

fun f64_quo :: "float64 \<Rightarrow> float64 \<Rightarrow> float64" where
  "f64_quo (Finite x) (Finite y) =
     (if y = 0 then (if x = 0 then NaN else if 0 < x then PosInf else NegInf)
      else fl (x / y))"
| "f64_quo NaN b = NaN"
| "f64_quo a NaN = NaN"
| "f64_quo (Finite x) b = Finite 0"
| "f64_quo a (Finite y) = (if 0 \<le> y then a else f64_neg a)"
| "f64_quo a b = NaN"

text \<open>Comparisons: every comparison with NaN is false.\<close>

fun f64_less :: "float64 \<Rightarrow> float64 \<Rightarrow> bool" where
  "f64_less (Finite x) (Finite y) = (x < y)"
| "f64_less NaN b = False"
| "f64_less a NaN = False"
| "f64_less NegInf b = (b \<noteq> NegInf)"
| "f64_less a PosInf = (a \<noteq> PosInf)"
| "f64_less a b = False"

definition f64_le :: "float64 \<Rightarrow> float64 \<Rightarrow> bool" where
  "f64_le a b = (a \<noteq> NaN \<and> b \<noteq> NaN \<and> (a = b \<or> f64_less a b))"

text \<open>The builtins \<^verbatim>\<open>min\<close> and \<^verbatim>\<open>max\<close>: NaN if an argument is NaN.\<close>

fun f64_min :: "float64 \<Rightarrow> float64 \<Rightarrow> float64" where
  "f64_min NaN b = NaN"
| "f64_min a NaN = NaN"
| "f64_min a b = (if f64_less b a then b else a)"

fun f64_max :: "float64 \<Rightarrow> float64 \<Rightarrow> float64" where
  "f64_max NaN b = NaN"
| "f64_max a NaN = NaN"
| "f64_max a b = (if f64_less a b then b else a)"

text \<open>The conversion \<^verbatim>\<open>float64(n)\<close> of an integer.\<close>

definition float64_of_int :: "int \<Rightarrow> float64" where
  "float64_of_int n = fl (of_int n)"

text \<open>Go's \<^verbatim>\<open>/\<close> and \<^verbatim>\<open>%\<close> on integers truncate toward zero.\<close>

definition quot :: "int \<Rightarrow> int \<Rightarrow> int" where
  "quot a b = sgn a * sgn b * (\<bar>a\<bar> div \<bar>b\<bar>)"

definition rem :: "int \<Rightarrow> int \<Rightarrow> int" where
  "rem a b = a - b * quot a b"

text \<open>\<^verbatim>\<open>Duration.Seconds()\<close>: \<^verbatim>\<open>float64(d / Second) + float64(d % Second) / 1e9\<close>.\<close>

definition Seconds_f64 :: "duration \<Rightarrow> float64" where
  "Seconds_f64 d =
     (let sec = quot d 1000000000; nsec = rem d 1000000000
      in f64_add (float64_of_int sec) (f64_quo (float64_of_int nsec) (Finite 1000000000)))"

text \<open>\<^verbatim>\<open>Time.Sub\<close> on two monotonic readings: the difference, saturated to the range of
  \<^verbatim>\<open>int64\<close>.\<close>

definition subMono :: "time \<Rightarrow> time \<Rightarrow> duration" where
  "subMono t u =
     (let d = t - u
      in if 9223372036854775807 < d then 9223372036854775807
         else if d < - 9223372036854775808 then - 9223372036854775808
         else d)"

text \<open>A value a \<^verbatim>\<open>float64\<close> can hold: a finite one is unchanged by rounding and below \<open>2^1024\<close>
  in magnitude.\<close>

fun is_f64 :: "float64 \<Rightarrow> bool" where
  "is_f64 (Finite x) = (round64 x = x \<and> \<bar>x\<bar> < 2 ^ 1024)"
| "is_f64 v = True"

section \<open>Token bucket in binary64 (token-bucket.go)\<close>

record TokenBucket_f64 =
  tbf_capacity :: float64
  tbf_tokens :: float64
  tbf_refillRate :: float64
  tbf_lastRefillTime :: time

definition NewTokenBucket_f64 :: "float64 \<Rightarrow> float64 \<Rightarrow> time \<Rightarrow> TokenBucket_f64" where
  "NewTokenBucket_f64 capacity refillRate now =
     \<lparr>tbf_capacity = capacity, tbf_tokens = capacity, tbf_refillRate = refillRate,
      tbf_lastRefillTime = now\<rparr>"

definition tbf_refill :: "TokenBucket_f64 \<Rightarrow> time \<Rightarrow> TokenBucket_f64" where
  "tbf_refill tb currentTime =
     (let elapsedTime = Seconds_f64 (subMono currentTime (tbf_lastRefillTime tb));
          newTokens = f64_mul elapsedTime (tbf_refillRate tb)
      in tb\<lparr>tbf_tokens := f64_min (tbf_capacity tb) (f64_add (tbf_tokens tb) newTokens),
             tbf_lastRefillTime := currentTime\<rparr>)"

definition tbf_AllowRequest :: "TokenBucket_f64 \<Rightarrow> time \<Rightarrow> bool \<times> TokenBucket_f64" where
  "tbf_AllowRequest tb now =
     (let tb1 = tbf_refill tb now
      in if f64_le (Finite 1) (tbf_tokens tb1)
         then (True, tb1\<lparr>tbf_tokens := f64_sub (tbf_tokens tb1) (Finite 1)\<rparr>)
         else (False, tb1))"

definition tbf_GetTokens :: "TokenBucket_f64 \<Rightarrow> time \<Rightarrow> float64 \<times> TokenBucket_f64" where
  "tbf_GetTokens tb now = (let tb1 = tbf_refill tb now in (tbf_tokens tb1, tb1))"

fun tbf_step :: "TokenBucket_f64 \<Rightarrow> tb_call \<times> time \<Rightarrow> TokenBucket_f64" where
  "tbf_step tb (TB_AllowRequest, now) = snd (tbf_AllowRequest tb now)"
| "tbf_step tb (TB_GetTokens, now) = snd (tbf_GetTokens tb now)"

fun tbf_run :: "TokenBucket_f64 \<Rightarrow> (tb_call \<times> time) list \<Rightarrow> TokenBucket_f64" where
  "tbf_run tb [] = tb"
| "tbf_run tb (c # cs) = tbf_run (tbf_step tb c) cs"

text \<open>The level is a finite binary64 value within its bounds, the capacity a finite binary64
  value, the rate finite and not negative.\<close>

definition tbf_inv :: "TokenBucket_f64 \<Rightarrow> bool" where
  "tbf_inv tb =
     (case (tbf_capacity tb, tbf_refillRate tb, tbf_tokens tb) of
        (Finite c, Finite r, Finite k) \<Rightarrow>
          0 \<le> r \<and> 0 \<le> k \<and> k \<le> c \<and> is_f64 (Finite k) \<and> is_f64 (Finite c)
      | _ \<Rightarrow> False)"

section \<open>Leaky bucket in binary64\<close>

record LeakyBucket_f64 =
  lbf_capacity :: float64
  lbf_water :: float64
  lbf_leakRate :: float64
  lbf_lastTime :: time

definition NewLeakyBucket_f64 :: "float64 \<Rightarrow> float64 \<Rightarrow> time \<Rightarrow> LeakyBucket_f64" where
  "NewLeakyBucket_f64 capacity leakRate now =
     \<lparr>lbf_capacity = capacity, lbf_water = Finite 0, lbf_leakRate = leakRate,
      lbf_lastTime = now\<rparr>"

definition lbf_leak :: "LeakyBucket_f64 \<Rightarrow> time \<Rightarrow> LeakyBucket_f64" where
  "lbf_leak lb currentTime =
     (let elapsedTime = Seconds_f64 (subMono currentTime (lbf_lastTime lb));
          leaked = f64_mul elapsedTime (lbf_leakRate lb)
      in lb\<lparr>lbf_water := f64_max (Finite 0) (f64_sub (lbf_water lb) leaked),
             lbf_lastTime := currentTime\<rparr>)"

definition lbf_AllowRequest :: "LeakyBucket_f64 \<Rightarrow> time \<Rightarrow> bool \<times> LeakyBucket_f64" where
  "lbf_AllowRequest lb now =
     (let lb1 = lbf_leak lb now
      in if f64_less (lbf_water lb1) (lbf_capacity lb1)
         then (True, lb1\<lparr>lbf_water := f64_add (lbf_water lb1) (Finite 1)\<rparr>)
         else (False, lb1))"

definition lbf_GetWaterLevel :: "LeakyBucket_f64 \<Rightarrow> time \<Rightarrow> float64 \<times> LeakyBucket_f64" where
  "lbf_GetWaterLevel lb now = (let lb1 = lbf_leak lb now in (lbf_water lb1, lb1))"

definition lbf_GetCapacityUsed :: "LeakyBucket_f64 \<Rightarrow> time \<Rightarrow> float64 \<times> LeakyBucket_f64" where
  "lbf_GetCapacityUsed lb now =
     (let lb1 = lbf_leak lb now
      in (f64_mul (f64_quo (lbf_water lb1) (lbf_capacity lb1)) (Finite 100), lb1))"

fun lbf_step :: "LeakyBucket_f64 \<Rightarrow> lb_call \<times> time \<Rightarrow> LeakyBucket_f64" where
  "lbf_step lb (LB_AllowRequest, now) = snd (lbf_AllowRequest lb now)"
| "lbf_step lb (LB_GetWaterLevel, now) = snd (lbf_GetWaterLevel lb now)"
| "lbf_step lb (LB_GetCapacityUsed, now) = snd (lbf_GetCapacityUsed lb now)"

fun lbf_run :: "LeakyBucket_f64 \<Rightarrow> (lb_call \<times> time) list \<Rightarrow> LeakyBucket_f64" where
  "lbf_run lb [] = lb"
| "lbf_run lb (c # cs) = lbf_run (lbf_step lb c) cs"

text \<open>The water is a finite binary64 value between 0 and \<open>capacity + 1\<close> as binary64 computes
  that sum; the capacity is not negative, the leak rate is finite and not negative.\<close>

definition lbf_inv :: "LeakyBucket_f64 \<Rightarrow> bool" where
  "lbf_inv lb =
     (case (lbf_leakRate lb, lbf_water lb) of
        (Finite r, Finite w) \<Rightarrow>
          0 \<le> r \<and> 0 \<le> w \<and> is_f64 (Finite w) \<and> f64_le (Finite 0) (lbf_capacity lb)
          \<and> f64_le (Finite w) (f64_add (lbf_capacity lb) (Finite 1))
      | _ \<Rightarrow> False)"

text \<open>A bucket of capacity 0 that holds no water, its leak rate finite and not negative.\<close>

definition lbf_dry :: "LeakyBucket_f64 \<Rightarrow> bool" where
  "lbf_dry lb =
     (lbf_capacity lb = Finite 0 \<and> lbf_water lb = Finite 0
      \<and> (case lbf_leakRate lb of Finite r \<Rightarrow> 0 \<le> r | _ \<Rightarrow> False))"

section \<open>Properties of the token bucket\<close>

lemma Seconds_nonneg: "0 \<le> d \<Longrightarrow> 0 \<le> Seconds d"
  by (simp add: Seconds_def)







section \<open>The fields a leak keeps\<close>

lemma lb_leak_fields:
  "lb_capacity (lb_leak lb now) = lb_capacity lb"
  "lb_leakRate (lb_leak lb now) = lb_leakRate lb"
  "lb_lastTime (lb_leak lb now) = now"
  by (simp_all add: lb_leak_def Let_def)

section \<open>Properties of the fixed window counter\<close>

lemma fwc_AllowRequest_active:
  assumes "now - fwc_startTime fwc < fwc_windowSize fwc"
  shows "fwc_AllowRequest fwc now =
     (if fwc_count fwc < fwc_limit fwc then (True, fwc\<lparr>fwc_count := fwc_count fwc + 1\<rparr>)
      else (False, fwc))"
  using assms by (simp add: fwc_AllowRequest_def Sub_def)

lemma fwc_requests_active:
  "\<forall>t\<in>set ts. t - fwc_startTime fwc < fwc_windowSize fwc \<Longrightarrow>
   fwc_requests fwc ts = map (\<lambda>i. fwc_count fwc + int i < fwc_limit fwc) [0..<length ts]"
proof (induction ts arbitrary: fwc)
  case Nil
  then show ?case by simp
next
  case (Cons t ts)
  let ?fwc = "snd (fwc_AllowRequest fwc t)"
  have act: "t - fwc_startTime fwc < fwc_windowSize fwc" using Cons.prems by simp
  note step = fwc_AllowRequest_active [OF act]
  have same: "fwc_startTime ?fwc = fwc_startTime fwc" "fwc_windowSize ?fwc = fwc_windowSize fwc"
    "fwc_limit ?fwc = fwc_limit fwc"
    by (simp_all add: step)
  have "\<forall>u\<in>set ts. u - fwc_startTime ?fwc < fwc_windowSize ?fwc"
    using Cons.prems by (simp add: same)
  from Cons.IH [OF this]
  have rest: "fwc_requests ?fwc ts =
      map (\<lambda>i. fwc_count ?fwc + int i < fwc_limit fwc) [0..<length ts]"
    by (simp add: same)
  have shift: "(fwc_count ?fwc + int i < fwc_limit fwc)
      = (fwc_count fwc + int (Suc i) < fwc_limit fwc)" for i
    by (auto simp: step)
  have first: "fst (fwc_AllowRequest fwc t) = (fwc_count fwc < fwc_limit fwc)"
    by (simp add: step)
  have upt: "[0..<length (t # ts)] = 0 # map Suc [0..<length ts]"
    by (simp add: upt_conv_Cons map_Suc_upt del: upt_Suc)
  have "fwc_requests fwc (t # ts) = fst (fwc_AllowRequest fwc t) # fwc_requests ?fwc ts"
    by simp
  also have "\<dots> = (fwc_count fwc < fwc_limit fwc)
      # map (\<lambda>i. fwc_count fwc + int (Suc i) < fwc_limit fwc) [0..<length ts]"
    unfolding rest shift first ..
  also have "\<dots> = map (\<lambda>i. fwc_count fwc + int i < fwc_limit fwc) (0 # map Suc [0..<length ts])"
    by (simp add: comp_def)
  finally show ?case unfolding upt .
qed

text \<open>
  Claim C4. An \<open>AllowRequest\<close> call of a fixed window counter first resets an expired
  window (\<open>now - startTime \<ge> windowSize\<close>): \<open>startTime\<close> becomes \<open>now\<close> and \<open>count\<close> 0, and
  the reset stays in the counter it returns. It then allows the request and increments
  \<open>count\<close> by 1 if and only if \<open>count < limit\<close> (the count after any reset); otherwise it
  denies and leaves \<open>count\<close> as it is. Consequently, with \<open>limit = 5\<close>, of six requests
  issued while the window built at \<open>t0\<close> has not expired, the first five succeed and the
  sixth fails.
\<close>

theorem fwc_AllowRequest_contract:
  "fwc_AllowRequest fwc now =
     (if now - fwc_startTime fwc \<ge> fwc_windowSize fwc
      then (if 0 < fwc_limit fwc
            then (True, fwc\<lparr>fwc_startTime := now, fwc_count := 1\<rparr>)
            else (False, fwc\<lparr>fwc_startTime := now, fwc_count := 0\<rparr>))
      else (if fwc_count fwc < fwc_limit fwc
            then (True, fwc\<lparr>fwc_count := fwc_count fwc + 1\<rparr>)
            else (False, fwc)))
   \<and> (length ts = 6 \<and> (\<forall>t\<in>set ts. t - t0 < windowSize) \<longrightarrow>
        fwc_requests (NewFixedWindowCounter 5 windowSize t0) ts
          = [True, True, True, True, True, False])"
proof -
  have a: "fwc_requests (NewFixedWindowCounter 5 windowSize t0) ts
          = [True, True, True, True, True, False]"
    if "length ts = 6" and "\<forall>t\<in>set ts. t - t0 < windowSize"
  proof -
    have six: "[0..<6] = [0, 1, 2, 3, 4, 5::nat]"
      by code_simp
    have "\<forall>t\<in>set ts. t - fwc_startTime (NewFixedWindowCounter 5 windowSize t0)
        < fwc_windowSize (NewFixedWindowCounter 5 windowSize t0)"
      using that(2) by (simp add: NewFixedWindowCounter_def)
    from fwc_requests_active [OF this] show ?thesis
      by (simp add: that(1) six NewFixedWindowCounter_def)
  qed
  have b: "fwc_AllowRequest fwc now =
     (if now - fwc_startTime fwc \<ge> fwc_windowSize fwc
      then (if 0 < fwc_limit fwc
            then (True, fwc\<lparr>fwc_startTime := now, fwc_count := 1\<rparr>)
            else (False, fwc\<lparr>fwc_startTime := now, fwc_count := 0\<rparr>))
      else (if fwc_count fwc < fwc_limit fwc
            then (True, fwc\<lparr>fwc_count := fwc_count fwc + 1\<rparr>)
            else (False, fwc)))"
    by (simp add: fwc_AllowRequest_def Sub_def)
  from a b show ?thesis by blast
qed

theorem fwc_AllowRequest_contract_witness:
  "fwc_AllowRequest \<lparr>fwc_limit = 5, fwc_windowSize = 10, fwc_count = 5, fwc_startTime = 0\<rparr> 10
     = (True, \<lparr>fwc_limit = 5, fwc_windowSize = 10, fwc_count = 1, fwc_startTime = 10\<rparr>)
   \<and> fwc_AllowRequest \<lparr>fwc_limit = 5, fwc_windowSize = 10, fwc_count = 5, fwc_startTime = 0\<rparr> 9
     = (False, \<lparr>fwc_limit = 5, fwc_windowSize = 10, fwc_count = 5, fwc_startTime = 0\<rparr>)
   \<and> fwc_requests (NewFixedWindowCounter 5 10 0) [0, 0, 1, 2, 3, 9]
     = [True, True, True, True, True, False]"
  using fwc_AllowRequest_contract
      [of "\<lparr>fwc_limit = 5, fwc_windowSize = 10, fwc_count = 5, fwc_startTime = 0\<rparr>"
         10 "[0, 0, 1, 2, 3, 9]" 0 10]
    fwc_AllowRequest_contract
      [of "\<lparr>fwc_limit = 5, fwc_windowSize = 10, fwc_count = 5, fwc_startTime = 0\<rparr>"
         9 "[]"]
  by simp

text \<open>
  Claim C5. The accessors \<open>GetCurrentCount\<close> and \<open>GetTimeUntilReset\<close> (and \<open>GetWindowInfo\<close>)
  leave every field of the counter as it was. On an expired window they answer 0 (count)
  and 0 (remaining time) while \<open>startTime\<close> and \<open>count\<close> keep their values; \<open>AllowRequest\<close>
  on the same expired window does store the reset: \<open>startTime\<close> becomes \<open>now\<close> and \<open>count\<close>
  restarts from 0 (so it is 1 after an allowed request, 0 after a denied one).
\<close>

theorem fwc_accessors_frame:
  "snd (fwc_GetCurrentCount fwc now) = fwc
   \<and> snd (fwc_GetTimeUntilReset fwc now) = fwc
   \<and> snd (fwc_GetWindowInfo fwc now) = fwc
   \<and> (now - fwc_startTime fwc \<ge> fwc_windowSize fwc \<longrightarrow>
        fst (fwc_GetCurrentCount fwc now) = 0
        \<and> fst (fwc_GetTimeUntilReset fwc now) = 0
        \<and> fwc_startTime (snd (fwc_AllowRequest fwc now)) = now
        \<and> fwc_count (snd (fwc_AllowRequest fwc now)) = (if 0 < fwc_limit fwc then 1 else 0))"
  by (simp add: fwc_GetCurrentCount_def fwc_GetTimeUntilReset_def fwc_GetWindowInfo_def
      fwc_AllowRequest_def Let_def Sub_def)

theorem fwc_accessors_frame_witness:
  "snd (fwc_GetCurrentCount
          \<lparr>fwc_limit = 5, fwc_windowSize = 10, fwc_count = 3, fwc_startTime = 0\<rparr> 12)
     = \<lparr>fwc_limit = 5, fwc_windowSize = 10, fwc_count = 3, fwc_startTime = 0\<rparr>
   \<and> snd (fwc_GetTimeUntilReset
          \<lparr>fwc_limit = 5, fwc_windowSize = 10, fwc_count = 3, fwc_startTime = 0\<rparr> 12)
     = \<lparr>fwc_limit = 5, fwc_windowSize = 10, fwc_count = 3, fwc_startTime = 0\<rparr>
   \<and> fst (fwc_GetCurrentCount
          \<lparr>fwc_limit = 5, fwc_windowSize = 10, fwc_count = 3, fwc_startTime = 0\<rparr> 12) = 0
   \<and> fst (fwc_GetTimeUntilReset
          \<lparr>fwc_limit = 5, fwc_windowSize = 10, fwc_count = 3, fwc_startTime = 0\<rparr> 12) = 0
   \<and> snd (fwc_AllowRequest
          \<lparr>fwc_limit = 5, fwc_windowSize = 10, fwc_count = 3, fwc_startTime = 0\<rparr> 12)
     = \<lparr>fwc_limit = 5, fwc_windowSize = 10, fwc_count = 1, fwc_startTime = 12\<rparr>"
  using fwc_accessors_frame
      [of "\<lparr>fwc_limit = 5, fwc_windowSize = 10, fwc_count = 3, fwc_startTime = 0\<rparr>" 12]
  by (simp add: fwc_AllowRequest_def Sub_def)

section \<open>Properties of the sliding window log\<close>

lemma cleanup_loop_dropWhile: "cleanup_loop c xs = dropWhile (\<lambda>t. t \<le> c) xs"
  by (induction xs) (auto simp: After_def)

lemma swl_cleanup_requests:
  "swl_requests (swl_cleanupOldRequests swl now)
     = dropWhile (\<lambda>t. t \<le> now + neg_duration (swl_windowSize swl)) (swl_requests swl)"
  by (simp add: swl_cleanupOldRequests_def Add_def cleanup_loop_dropWhile)

lemma swl_cleanup_fields:
  "swl_limit (swl_cleanupOldRequests swl now) = swl_limit swl"
  "swl_windowSize (swl_cleanupOldRequests swl now) = swl_windowSize swl"
  by (simp_all add: swl_cleanupOldRequests_def Let_def)

lemma sorted_dropWhile_above:
  "sorted xs \<Longrightarrow> \<forall>t\<in>set (dropWhile (\<lambda>t. t \<le> c) xs). (c::int) < t"
  by (induction xs) auto

lemma swl_step_requests:
  "swl_requests (swl_step swl (c, now)) =
     (if c = SWL_AllowRequest
         \<and> int (length (swl_requests (swl_cleanupOldRequests swl now))) < swl_limit swl
      then swl_requests (swl_cleanupOldRequests swl now) @ [now]
      else swl_requests (swl_cleanupOldRequests swl now))"
  by (cases c)
    (simp_all add: swl_AllowRequest_def swl_GetCurrentCount_def swl_GetOldestRequestAge_def
      swl_GetTimeUntilSlotAvailable_def swl_GetWindowInfo_def swl_GetRequestTimestamps_def
      Let_def swl_cleanup_fields split: list.splits)

lemma swl_step_fields:
  "swl_limit (swl_step swl c) = swl_limit swl"
  "swl_windowSize (swl_step swl c) = swl_windowSize swl"
  by (cases c; cases "fst c";
      simp add: swl_AllowRequest_def swl_GetCurrentCount_def swl_GetOldestRequestAge_def
      swl_GetTimeUntilSlotAvailable_def swl_GetWindowInfo_def swl_GetRequestTimestamps_def
      Let_def swl_cleanup_fields split: list.splits)+

lemma sorted_dropWhile_append:
  "sorted (xs @ ys) \<Longrightarrow> sorted (dropWhile P xs @ ys)"
  by (induction xs) (auto simp: sorted_append)

lemma swl_run_sorted:
  "sorted (swl_requests swl @ map snd cs) \<Longrightarrow> sorted (swl_requests (swl_run swl cs))"
proof (induction cs arbitrary: swl)
  case Nil
  then show ?case by simp
next
  case (Cons c cs)
  obtain k now where c: "c = (k, now)" by (cases c)
  let ?kept = "dropWhile (\<lambda>t. t \<le> now + neg_duration (swl_windowSize swl)) (swl_requests swl)"
  from Cons.prems c have "sorted (?kept @ now # map snd cs)"
    by (intro sorted_dropWhile_append) simp
  then have "sorted (swl_requests (swl_step swl c) @ map snd cs)"
    by (auto simp: c swl_step_requests swl_cleanup_requests sorted_append)
  from Cons.IH [OF this] show ?case by simp
qed

lemma swl_run_fields:
  "swl_limit (swl_run swl cs) = swl_limit swl"
  "swl_windowSize (swl_run swl cs) = swl_windowSize swl"
  by (induction cs arbitrary: swl) (simp_all add: swl_step_fields)

lemma swl_step_length:
  assumes "int (length (swl_requests swl)) \<le> swl_limit swl"
  shows "int (length (swl_requests (swl_step swl c))) \<le> swl_limit swl"
proof -
  obtain k now where c: "c = (k, now)" by (cases c)
  have "length (dropWhile (\<lambda>t. t \<le> now + neg_duration (swl_windowSize swl)) (swl_requests swl))
      \<le> length (swl_requests swl)"
    by (rule length_dropWhile_le)
  with assms show ?thesis
    by (auto simp: c swl_step_requests swl_cleanup_requests)
qed

lemma swl_run_length:
  "int (length (swl_requests swl)) \<le> swl_limit swl \<Longrightarrow>
   int (length (swl_requests (swl_run swl cs))) \<le> swl_limit swl"
proof (induction cs arbitrary: swl)
  case Nil
  then show ?case by simp
next
  case (Cons c cs)
  from swl_step_length [OF Cons.prems, of c] Cons.IH [of "swl_step swl c"]
  show ?case by (simp add: swl_step_fields)
qed

text \<open>
  Claim C6, amended. For a sliding window log whose \<open>windowSize\<close> is not the minimum
  duration \<open>- 2^63\<close> ns, \<open>cleanupOldRequests\<close> removes instants from the front of the log
  exactly while they are at or before \<open>now - windowSize\<close>, and keeps the first instant after
  the cutoff with everything behind it. Every public operation starts with it: the log an
  operation leaves is the cleaned log, with \<open>now\<close> appended when \<open>AllowRequest\<close> admits. The
  log of a limiter is sorted after any history of calls at non-decreasing clock readings,
  and on a sorted log every instant that cleanup retains is strictly after
  \<open>now - windowSize\<close>.
\<close>

theorem swl_cleanup_contract:
  assumes "swl_windowSize swl \<noteq> - 9223372036854775808"
  shows "swl_requests (swl_cleanupOldRequests swl now)
     = dropWhile (\<lambda>t. t \<le> now - swl_windowSize swl) (swl_requests swl)
   \<and> swl_requests (swl_step swl (c, now)) =
       (if c = SWL_AllowRequest
           \<and> int (length (swl_requests (swl_cleanupOldRequests swl now))) < swl_limit swl
        then swl_requests (swl_cleanupOldRequests swl now) @ [now]
        else swl_requests (swl_cleanupOldRequests swl now))
   \<and> (sorted (map snd calls) \<longrightarrow>
        sorted (swl_requests (swl_run (NewSlidingWindowLog limit windowSize) calls)))
   \<and> (sorted (swl_requests swl) \<longrightarrow>
        (\<forall>t\<in>set (swl_requests (swl_cleanupOldRequests swl now)). now - swl_windowSize swl < t))"
proof -
  have cut: "now + neg_duration (swl_windowSize swl) = now - swl_windowSize swl"
    using assms by (simp add: neg_duration_def)
  have a: "sorted (swl_requests (swl_run (NewSlidingWindowLog limit windowSize) calls))"
    if "sorted (map snd calls)"
    using that by (intro swl_run_sorted) (simp add: NewSlidingWindowLog_def)
  have kept: "swl_requests (swl_cleanupOldRequests swl now)
     = dropWhile (\<lambda>t. t \<le> now - swl_windowSize swl) (swl_requests swl)"
    by (simp add: swl_cleanup_requests cut)
  have b: "\<forall>t\<in>set (swl_requests (swl_cleanupOldRequests swl now)). now - swl_windowSize swl < t"
    if "sorted (swl_requests swl)"
    unfolding kept using that by (rule sorted_dropWhile_above)
  from a b kept swl_step_requests [of swl c now]
  show ?thesis by blast
qed

theorem swl_cleanup_contract_witness:
  "(10::int) \<noteq> - 9223372036854775808
   \<and> swl_requests (swl_cleanupOldRequests
      \<lparr>swl_limit = 2, swl_windowSize = 10, swl_requests = [0, 4]\<rparr> 10) = [4]
   \<and> swl_requests (swl_step \<lparr>swl_limit = 2, swl_windowSize = 10, swl_requests = [0, 4]\<rparr>
        (SWL_AllowRequest, 10)) = [4, 10]
   \<and> swl_requests (swl_step \<lparr>swl_limit = 2, swl_windowSize = 10, swl_requests = [0, 4]\<rparr>
        (SWL_GetCurrentCount, 10)) = [4]
   \<and> sorted [0, 4 :: int]
   \<and> sorted (swl_requests (swl_run (NewSlidingWindowLog 2 10)
        [(SWL_AllowRequest, 0), (SWL_AllowRequest, 4)]))
   \<and> list_all (\<lambda>t. 10 - 10 < t) (swl_requests (swl_cleanupOldRequests
        \<lparr>swl_limit = 2, swl_windowSize = 10, swl_requests = [0, 4]\<rparr> 10))"
  using swl_cleanup_contract
      [of "\<lparr>swl_limit = 2, swl_windowSize = 10, swl_requests = [0, 4]\<rparr>" 10
        SWL_AllowRequest "[(SWL_AllowRequest, 0), (SWL_AllowRequest, 4)]" 2 10]
    swl_cleanup_contract
      [of "\<lparr>swl_limit = 2, swl_windowSize = 10, swl_requests = [0, 4]\<rparr>" 10
        SWL_GetCurrentCount "[]" 2 10]
  by (simp add: list_all_iff)

text \<open>Claim C6 as stated, for every window: with \<open>windowSize = - 2^63\<close> the negated window
  is \<open>- 2^63\<close> again, the cutoff lies 292 years before \<open>now\<close>, and cleanup keeps the instant 5
  although it is at or before \<open>now - windowSize\<close>.\<close>

theorem swl_cleanup_counterexample:
  "swl_requests (swl_run (NewSlidingWindowLog 2 (- 9223372036854775808))
      [(SWL_AllowRequest, 5), (SWL_GetCurrentCount, 7)]) = [5]
   \<and> swl_requests (swl_cleanupOldRequests
        \<lparr>swl_limit = 2, swl_windowSize = - 9223372036854775808, swl_requests = [5]\<rparr> 7) = [5]
   \<and> (5::int) \<le> 7 - (- 9223372036854775808)"
  by (simp add: NewSlidingWindowLog_def swl_AllowRequest_def swl_GetCurrentCount_def
      swl_cleanupOldRequests_def neg_duration_def Add_def After_def Let_def)

text \<open>
  Claim C7, amended. For a sliding window log built with a limit \<open>L \<ge> 0\<close>, after any
  sequence of operations the log holds at most \<open>L\<close> instants: \<open>AllowRequest\<close> appends \<open>now\<close> and
  returns true only when the cleaned log is strictly shorter than the limit, and otherwise
  returns false and appends nothing. (A limiter built with a negative limit holds 0
  instants, which is more than its limit.)
\<close>

theorem swl_AllowRequest_bounded:
  fixes swl :: SlidingWindowLog and now :: time
  defines "kept \<equiv> swl_requests (swl_cleanupOldRequests swl now)"
  assumes "0 \<le> limit"
  shows "int (length (swl_requests (swl_run (NewSlidingWindowLog limit windowSize) calls))) \<le> limit
       \<and> swl_AllowRequest swl now =
           (if int (length kept) < swl_limit swl
            then (True, swl\<lparr>swl_requests := kept @ [now]\<rparr>)
            else (False, swl\<lparr>swl_requests := kept\<rparr>))"
proof -
  let ?new = "NewSlidingWindowLog limit windowSize"
  have "int (length (swl_requests ?new)) \<le> swl_limit ?new"
    using assms(2) by (simp add: NewSlidingWindowLog_def)
  from swl_run_length [OF this, of calls]
  have a: "int (length (swl_requests (swl_run ?new calls))) \<le> limit"
    by (simp add: NewSlidingWindowLog_def)
  have b: "swl_AllowRequest swl now =
           (if int (length kept) < swl_limit swl
            then (True, swl\<lparr>swl_requests := kept @ [now]\<rparr>)
            else (False, swl\<lparr>swl_requests := kept\<rparr>))"
    by (simp add: swl_AllowRequest_def swl_cleanupOldRequests_def kept_def Let_def)
  from a b show ?thesis by blast
qed

theorem swl_AllowRequest_bounded_witness:
  "(0::int) \<le> 2
   \<and> int (length (swl_requests (swl_run (NewSlidingWindowLog 2 10)
        [(SWL_AllowRequest, 0), (SWL_AllowRequest, 4), (SWL_AllowRequest, 5),
         (SWL_GetCurrentCount, 10), (SWL_AllowRequest, 12)]))) \<le> 2
   \<and> swl_AllowRequest \<lparr>swl_limit = 2, swl_windowSize = 10, swl_requests = [0, 4]\<rparr> 10
       = (True, \<lparr>swl_limit = 2, swl_windowSize = 10, swl_requests = [4, 10]\<rparr>)
   \<and> swl_AllowRequest \<lparr>swl_limit = 2, swl_windowSize = 10, swl_requests = [0, 4]\<rparr> 9
       = (False, \<lparr>swl_limit = 2, swl_windowSize = 10, swl_requests = [0, 4]\<rparr>)"
  using swl_AllowRequest_bounded
      [of 2 10 "[(SWL_AllowRequest, 0), (SWL_AllowRequest, 4), (SWL_AllowRequest, 5),
         (SWL_GetCurrentCount, 10), (SWL_AllowRequest, 12)]"
        "\<lparr>swl_limit = 2, swl_windowSize = 10, swl_requests = [0, 4]\<rparr>" 10]
    swl_AllowRequest_bounded
      [of 2 10 "[]" "\<lparr>swl_limit = 2, swl_windowSize = 10, swl_requests = [0, 4]\<rparr>" 9]
  by (simp add: swl_cleanup_requests neg_duration_def)

text \<open>Claim C7 as stated, for every limit: a log built with limit -1 holds 0 instants.\<close>

theorem swl_log_size_counterexample:
  "\<not> int (length (swl_requests (swl_run (NewSlidingWindowLog (- 1) 10) []))) \<le> - 1"
  by (simp add: NewSlidingWindowLog_def)

section \<open>Utilization with a zero ceiling\<close>

lemma lb_leak_dry:
  assumes "lb_dry lb" and "lb_lastTime lb \<le> now"
  shows "lb_water (lb_leak lb now) = 0"
proof -
  have "0 \<le> Seconds (Sub now (lb_lastTime lb)) * lb_leakRate lb"
    using assms by (simp add: Seconds_nonneg Sub_def lb_dry_def)
  with assms show ?thesis
    by (simp add: lb_leak_def Let_def lb_dry_def)
qed

lemma lb_step_dry:
  assumes "lb_dry lb" and "lb_lastTime lb \<le> snd c"
  shows "lb_dry (lb_step lb c) \<and> lb_lastTime (lb_step lb c) = snd c"
proof -
  obtain k now where c: "c = (k, now)" by (cases c)
  have w: "lb_water (lb_leak lb now) = 0"
    using assms c by (intro lb_leak_dry) simp_all
  show ?thesis
    using w assms(1) c
    by (cases k) (simp_all add: lb_dry_def lb_AllowRequest_def lb_GetWaterLevel_def
        lb_GetCapacityUsed_def Let_def lb_leak_fields)
qed

lemma lb_run_dry:
  "lb_dry lb \<Longrightarrow> sorted (lb_lastTime lb # map snd cs @ [now]) \<Longrightarrow>
   lb_dry (lb_run lb cs) \<and> lb_lastTime (lb_run lb cs) \<le> now"
proof (induction cs arbitrary: lb)
  case Nil
  then show ?case by simp
next
  case (Cons c cs)
  from Cons.prems have le: "lb_lastTime lb \<le> snd c" by simp
  note st = lb_step_dry [OF Cons.prems(1) le]
  from Cons.prems(2) st have "sorted (lb_lastTime (lb_step lb c) # map snd cs @ [now])"
    by simp
  with Cons.IH [of "lb_step lb c"] st show ?case by simp
qed

lemma fwc_step_zero:
  "fwc_limit fwc = 0 \<Longrightarrow> fwc_count fwc = 0 \<Longrightarrow>
   fwc_limit (fwc_step fwc c) = 0 \<and> fwc_count (fwc_step fwc c) = 0
   \<and> fwc_windowSize (fwc_step fwc c) = fwc_windowSize fwc"
  by (cases c; cases "fst c")
    (simp_all add: fwc_AllowRequest_def fwc_GetCurrentCount_def fwc_GetTimeUntilReset_def
      fwc_GetWindowInfo_def Let_def)

lemma fwc_run_zero:
  "fwc_limit fwc = 0 \<Longrightarrow> fwc_count fwc = 0 \<Longrightarrow>
   fwc_limit (fwc_run fwc cs) = 0 \<and> fwc_count (fwc_run fwc cs) = 0
   \<and> fwc_windowSize (fwc_run fwc cs) = fwc_windowSize fwc"
proof (induction cs arbitrary: fwc)
  case Nil
  then show ?case by simp
next
  case (Cons c cs)
  from fwc_step_zero [OF Cons.prems, of c] Cons.IH [of "fwc_step fwc c"]
  show ?case by simp
qed

text \<open>
  Claim C10, amended. The utilization reads divide by the configured ceiling with no guard
  against zero: \<open>GetCapacityUsed\<close> computes \<open>(water / capacity) * 100\<close> on the leaked water.
  For a leaky bucket built with \<open>capacity = 0\<close> and \<open>leakRate \<ge> 0\<close> it returns NaN after any
  history (the clock never runs backwards). \<open>GetWindowInfo\<close> of a fixed window counter built
  with \<open>limit = 0\<close> returns a NaN utilization while the window has not expired, and 0
  through its expiry branch once \<open>now - startTime \<ge> windowSize\<close>. \<open>GetWindowInfo\<close> of a sliding
  window log built with \<open>limit = 0\<close> always returns a NaN utilization.
\<close>

theorem utilization_zero_ceiling:
  assumes "0 \<le> leakRate" and "sorted (t0 # map snd calls @ [now])"
  shows "fst (lb_GetCapacityUsed lb t)
           = f64_times (f64_div (lb_water (lb_leak lb t)) (lb_capacity lb)) 100
       \<and> fst (lb_GetCapacityUsed (lb_run (NewLeakyBucket 0 leakRate t0) calls) now) = NaN
       \<and> (case fst (fwc_GetWindowInfo
                      (fwc_run (NewFixedWindowCounter 0 windowSize created) fcalls) t) of
            (count, limit, timeUntilReset, utilization) \<Rightarrow>
              utilization =
                (if t - fwc_startTime (fwc_run (NewFixedWindowCounter 0 windowSize created) fcalls)
                      \<ge> windowSize
                 then Finite 0 else NaN))
       \<and> (case fst (swl_GetWindowInfo (swl_run (NewSlidingWindowLog 0 windowSize) scalls) t) of
            (count, limit, utilization, oldest) \<Rightarrow> utilization = NaN)"
proof -
  have a: "fst (lb_GetCapacityUsed lb t)
           = f64_times (f64_div (lb_water (lb_leak lb t)) (lb_capacity lb)) 100"
    by (simp add: lb_GetCapacityUsed_def Let_def lb_leak_fields)
  let ?lb = "lb_run (NewLeakyBucket 0 leakRate t0) calls"
  have "lb_dry (NewLeakyBucket 0 leakRate t0)"
    using assms(1) by (simp add: lb_dry_def NewLeakyBucket_def)
  moreover have "sorted (lb_lastTime (NewLeakyBucket 0 leakRate t0) # map snd calls @ [now])"
    using assms(2) by (simp add: NewLeakyBucket_def)
  ultimately have dry: "lb_dry ?lb \<and> lb_lastTime ?lb \<le> now"
    by (rule lb_run_dry)
  then have "lb_water (lb_leak ?lb now) = 0" "lb_capacity ?lb = 0"
    by (simp_all add: lb_leak_dry lb_dry_def)
  then have b: "fst (lb_GetCapacityUsed ?lb now) = NaN"
    by (simp add: lb_GetCapacityUsed_def Let_def lb_leak_fields f64_div_def)
  let ?fwc = "fwc_run (NewFixedWindowCounter 0 windowSize created) fcalls"
  have "fwc_limit ?fwc = 0 \<and> fwc_count ?fwc = 0
      \<and> fwc_windowSize ?fwc = fwc_windowSize (NewFixedWindowCounter 0 windowSize created)"
    by (rule fwc_run_zero) (simp_all add: NewFixedWindowCounter_def)
  then have c: "case fst (fwc_GetWindowInfo ?fwc t) of
      (count, limit, timeUntilReset, utilization) \<Rightarrow>
        utilization = (if t - fwc_startTime ?fwc \<ge> windowSize then Finite 0 else NaN)"
    by (simp add: fwc_GetWindowInfo_def Let_def Sub_def f64_div_def NewFixedWindowCounter_def)
  let ?swl = "swl_run (NewSlidingWindowLog 0 windowSize) scalls"
  have "int (length (swl_requests ?swl)) \<le> swl_limit (NewSlidingWindowLog 0 windowSize)"
    by (rule swl_run_length) (simp add: NewSlidingWindowLog_def)
  then have "swl_requests ?swl = []" "swl_limit ?swl = 0"
    by (simp_all add: NewSlidingWindowLog_def swl_run_fields)
  then have d: "case fst (swl_GetWindowInfo ?swl t) of
      (count, limit, utilization, oldest) \<Rightarrow> utilization = NaN"
    by (simp add: swl_GetWindowInfo_def Let_def swl_cleanup_requests swl_cleanup_fields
        f64_div_def)
  from a b c d show ?thesis by blast
qed

theorem utilization_zero_ceiling_witness:
  "(0::real) \<le> 1
   \<and> fst (lb_GetCapacityUsed (lb_run (NewLeakyBucket 0 1 0)
        [(LB_AllowRequest, 0), (LB_GetWaterLevel, 500000000)]) 1000000000) = NaN
   \<and> fst (fwc_GetWindowInfo (fwc_run (NewFixedWindowCounter 0 10 0) [(FWC_AllowRequest, 3)]) 4)
       = (0, 0, 6, NaN)
   \<and> fst (swl_GetWindowInfo (swl_run (NewSlidingWindowLog 0 10) [(SWL_AllowRequest, 3)]) 4)
       = (0, 0, NaN, 0)"
  using utilization_zero_ceiling [of 1 0
      "[(LB_AllowRequest, 0), (LB_GetWaterLevel, 500000000)]" 1000000000
      "NewLeakyBucket 0 1 0" 4 10 0 "[(FWC_AllowRequest, 3)]" "[(SWL_AllowRequest, 3)]"]
  by (simp add: fwc_GetWindowInfo_def fwc_AllowRequest_def NewFixedWindowCounter_def
      swl_GetWindowInfo_def swl_AllowRequest_def swl_cleanupOldRequests_def
      NewSlidingWindowLog_def Sub_def Add_def f64_div_def Let_def)

text \<open>Claim C10 as stated: a fixed window counter built with limit 0 reports utilization 0,
  not NaN, on an expired window; a leaky bucket built with capacity 0 and a negative leak
  rate gathers water and reports an infinite percentage.\<close>

theorem utilization_zero_ceiling_counterexample:
  "fst (fwc_GetWindowInfo (NewFixedWindowCounter 0 10 0) 10) = (0, 0, 0, Finite 0)
   \<and> fst (lb_GetCapacityUsed (NewLeakyBucket 0 (- 1) 0) 1000000000) = PosInf"
  by (simp add: fwc_GetWindowInfo_def NewFixedWindowCounter_def Sub_def Let_def
      lb_GetCapacityUsed_def NewLeakyBucket_def lb_leak_def Seconds_def f64_div_def)

section \<open>A panic of the sliding window log\<close>

lemma swl_run_empty:
  "swl_limit swl \<le> 0 \<Longrightarrow> swl_requests swl = [] \<Longrightarrow> swl_requests (swl_run swl cs) = []"
proof (induction cs arbitrary: swl)
  case Nil
  then show ?case by simp
next
  case (Cons c cs)
  obtain k now where c: "c = (k, now)" by (cases c)
  have "swl_requests (swl_step swl c) = []"
    using Cons.prems by (simp add: c swl_step_requests swl_cleanup_requests)
  with Cons.IH [of "swl_step swl c"] Cons.prems(1) show ?case
    by (simp add: swl_step_fields)
qed

text \<open>
  \<open>GetTimeUntilSlotAvailable\<close> of a sliding window log built with a limit of 0 or less
  panics after any history: the log is empty and not below the limit, so the operation
  reads the front of an empty deque.
\<close>

theorem swl_GetTimeUntilSlotAvailable_panics:
  assumes "limit \<le> 0"
  shows "fst (swl_GetTimeUntilSlotAvailable
                (swl_run (NewSlidingWindowLog limit windowSize) calls) now)
           = Inl NilPointerDereference"
proof -
  let ?swl = "swl_run (NewSlidingWindowLog limit windowSize) calls"
  have "swl_requests ?swl = []"
    using assms by (intro swl_run_empty) (simp_all add: NewSlidingWindowLog_def)
  moreover have "swl_limit ?swl = limit"
    by (simp add: swl_run_fields NewSlidingWindowLog_def)
  ultimately show ?thesis
    using assms
    by (simp add: swl_GetTimeUntilSlotAvailable_def Let_def swl_cleanup_requests
        swl_cleanup_fields)
qed

theorem swl_GetTimeUntilSlotAvailable_panics_witness:
  "(0::int) \<le> 0
   \<and> fst (swl_GetTimeUntilSlotAvailable
            (swl_run (NewSlidingWindowLog 0 10) [(SWL_AllowRequest, 3)]) 4)
       = Inl NilPointerDereference"
  using swl_GetTimeUntilSlotAvailable_panics [of 0 10 "[(SWL_AllowRequest, 3)]" 4]
  by simp

section \<open>The binary exponent\<close>

declare expo_up.simps [simp del] expo_down.simps [simp del]

lemma expo_up_bounds: "1 \<le> x \<Longrightarrow> 2 ^ expo_up x \<le> x \<and> x < 2 ^ Suc (expo_up x)"
proof (induction x rule: expo_up.induct)
  case (1 x)
  show ?case
  proof (cases "x < 2")
    case True
    with "1.prems" show ?thesis by (simp add: expo_up.simps [of x])
  next
    case False
    then have "1 \<le> x / 2" by simp
    with "1.IH" False have "2 ^ expo_up (x / 2) \<le> x / 2 \<and> x / 2 < 2 ^ Suc (expo_up (x / 2))"
      by simp
    with False show ?thesis by (simp add: expo_up.simps [of x])
  qed
qed

lemma pow2_pred: "(2::real) powi (e - 1) = 2 powi e / 2"
  by (simp add: power_int_diff)

lemma expo_down_bounds:
  "0 < x \<Longrightarrow> x < 1 \<Longrightarrow>
   2 powi (- int (expo_down x)) \<le> x \<and> x < 2 powi (1 - int (expo_down x))"
proof (induction x rule: expo_down.induct)
  case (1 x)
  have step: "expo_down x = Suc (expo_down (2 * x))"
    using "1.prems" by (simp add: expo_down.simps [of x])
  show ?case
  proof (cases "1 \<le> 2 * x")
    case True
    then have "expo_down (2 * x) = 0" by (simp add: expo_down.simps [of "2 * x"])
    with step True "1.prems" show ?thesis by (simp add: power_int_minus)
  next
    case False
    with "1.IH" "1.prems"
    have ih: "2 powi (- int (expo_down (2 * x))) \<le> 2 * x
        \<and> 2 * x < 2 powi (1 - int (expo_down (2 * x)))"
      by simp
    have e1: "- int (Suc (expo_down (2 * x))) = - int (expo_down (2 * x)) - 1" by simp
    have e2: "1 - int (Suc (expo_down (2 * x))) = 1 - int (expo_down (2 * x)) - 1" by simp
    have a: "(2::real) powi (- int (Suc (expo_down (2 * x))))
        = 2 powi (- int (expo_down (2 * x))) / 2"
      unfolding e1 by (rule pow2_pred)
    have b: "(2::real) powi (1 - int (Suc (expo_down (2 * x))))
        = 2 powi (1 - int (expo_down (2 * x))) / 2"
      unfolding e2 by (rule pow2_pred)
    from ih show ?thesis unfolding step a b by simp
  qed
qed

lemma expo_bounds:
  assumes "0 < x"
  shows "2 powi expo x \<le> x \<and> x < 2 powi (expo x + 1)"
proof (cases "1 \<le> x")
  case True
  from expo_up_bounds [OF True] True show ?thesis
    by (simp add: expo_def power_int_add)
next
  case False
  with assms expo_down_bounds [of x] show ?thesis
    by (simp add: expo_def add.commute)
qed

lemma pow2_less_cancel: "(2::real) powi a < 2 powi b \<Longrightarrow> a < b"
  by (rule ccontr) (simp add: not_less power_int_increasing leD)

lemma expo_unique:
  assumes "2 powi e \<le> x" and "x < 2 powi (e + 1)"
  shows "expo x = e"
proof -
  have "0 < x" using assms(1) by (smt (verit) zero_less_power_int)
  note b = expo_bounds [OF this]
  from b assms have "(2::real) powi expo x < 2 powi (e + 1)" "(2::real) powi e < 2 powi (expo x + 1)"
    by linarith+
  then have "expo x < e + 1" "e < expo x + 1" by (auto dest: pow2_less_cancel)
  then show ?thesis by simp
qed

lemma expo_mono:
  assumes "0 < x" and "x \<le> y"
  shows "expo x \<le> expo y"
proof -
  have "0 < y" using assms by simp
  from expo_bounds [OF assms(1)] expo_bounds [OF this] assms(2)
  have "(2::real) powi expo x < 2 powi (expo y + 1)" by linarith
  then show ?thesis by (auto dest: pow2_less_cancel)
qed

section \<open>Rounding to the nearest integer\<close>

lemma rne_near: "\<bar>x - of_int n\<bar> < 1 / 2 \<Longrightarrow> rne x = n"
proof -
  assume a: "\<bar>x - of_int n\<bar> < 1 / 2"
  show ?thesis
  proof (cases "of_int n \<le> x")
    case True
    with a have "\<lfloor>x\<rfloor> = n" by (intro floor_unique) auto
    with a True show ?thesis by (simp add: rne_def Let_def)
  next
    case False
    with a have f: "\<lfloor>x\<rfloor> = n - 1" by (intro floor_unique) auto
    with a False show ?thesis by (simp add: rne_def Let_def)
  qed
qed

lemma rne_tie: "x = of_int n + 1 / 2 \<Longrightarrow> rne x = (if even n then n else n + 1)"
proof -
  assume a: "x = of_int n + 1 / 2"
  then have "\<lfloor>x\<rfloor> = n" by (intro floor_unique) auto
  with a show ?thesis by (simp add: rne_def Let_def)
qed

lemma rne_of_int [simp]: "rne (of_int n) = n"
  by (rule rne_near) simp

lemma rne_cases:
  fixes x :: real
  obtains n where "\<bar>x - of_int n\<bar> < 1 / 2" | n where "x = of_int n + 1 / 2"
proof -
  define r where "r = x - of_int \<lfloor>x\<rfloor>"
  have r: "0 \<le> r" "r < 1" unfolding r_def by linarith+
  consider "r < 1 / 2" | "r = 1 / 2" | "1 / 2 < r" by linarith
  then show ?thesis
  proof cases
    case 1
    with r have "\<bar>x - of_int \<lfloor>x\<rfloor>\<bar> < 1 / 2" by (simp add: r_def)
    then show ?thesis by (rule that(1))
  next
    case 2
    then have "x = of_int \<lfloor>x\<rfloor> + 1 / 2" by (simp add: r_def)
    then show ?thesis by (rule that(2))
  next
    case 3
    with r have "\<bar>x - of_int (\<lfloor>x\<rfloor> + 1)\<bar> < 1 / 2" by (simp add: r_def)
    then show ?thesis by (rule that(1))
  qed
qed

lemma rne_close: "of_int (rne x) - 1 / 2 \<le> x \<and> x \<le> of_int (rne x) + 1 / 2"
proof (cases x rule: rne_cases)
  case (1 n)
  then have "rne x = n" by (rule rne_near)
  with 1 show ?thesis by (simp only: abs_less_iff) linarith
next
  case (2 n)
  from rne_tie [OF this] 2 show ?thesis by auto
qed

lemma rne_minus: "rne (- x) = - rne x"
proof (cases x rule: rne_cases)
  case (1 n)
  then have "\<bar>- x - of_int (- n)\<bar> < 1 / 2" by (simp only: of_int_minus)
  then have "rne (- x) = - n" by (rule rne_near)
  moreover from 1 have "rne x = n" by (rule rne_near)
  ultimately show ?thesis by simp
next
  case (2 n)
  then have "- x = of_int (- n - 1) + 1 / 2" by simp
  from rne_tie [OF this] rne_tie [OF 2] show ?thesis by auto
qed

lemma rne_mono:
  assumes "x \<le> y"
  shows "rne x \<le> rne y"
proof (rule ccontr)
  assume "\<not> rne x \<le> rne y"
  then have lt: "rne y + 1 \<le> rne x" by simp
  then have "(of_int (rne y) :: real) + 1 \<le> of_int (rne x)"
    by (metis of_int_1 of_int_add of_int_le_iff)
  with rne_close [of x] rne_close [of y] assms
  have xy: "x = of_int (rne y) + 1 / 2" "y = of_int (rne y) + 1 / 2" by linarith+
  then have "rne x = rne y" by simp
  with lt show False by simp
qed

lemma rne_le: "x \<le> of_int n \<Longrightarrow> rne x \<le> n"
  using rne_mono [of x "of_int n"] by simp

lemma rne_ge: "of_int n \<le> x \<Longrightarrow> n \<le> rne x"
  using rne_mono [of "of_int n" x] by simp

section \<open>Rounding to binary64: monotone and idempotent\<close>

lemma pow2_pos [simp]: "0 < (2::real) powi e"
  by (simp add: zero_less_power_int)

lemma pow2_mono: "a \<le> b \<Longrightarrow> (2::real) powi a \<le> 2 powi b"
  by (rule power_int_increasing) simp_all

lemma pow2_strict_mono: "a < b \<Longrightarrow> (2::real) powi a < 2 powi b"
  by (rule power_int_strict_increasing) simp_all

lemma pow2_add: "(2::real) powi (a + b) = 2 powi a * 2 powi b"
  by (simp add: power_int_add)

lemma pow2_diff: "(2::real) powi (a - b) = 2 powi a / 2 powi b"
  by (simp add: power_int_diff)

lemma quantum_minus [simp]: "quantum (- x) = quantum x"
  by (simp add: quantum_def)

lemma quantum_eq:
  "2 powi e \<le> \<bar>x\<bar> \<Longrightarrow> \<bar>x\<bar> < 2 powi (e + 1) \<Longrightarrow> quantum x = max e (- 1022) - 52"
  by (simp add: quantum_def expo_unique)

lemma quantum_mono: "0 < x \<Longrightarrow> x \<le> y \<Longrightarrow> quantum x \<le> quantum y"
  using expo_mono [of x y] by (simp add: quantum_def)

lemma round64_minus: "round64 (- x) = - round64 x"
  by (simp add: round64_def rne_minus)

lemma rne_0 [simp]: "rne 0 = 0"
  using rne_of_int [of 0] by simp

lemma round64_0 [simp]: "round64 0 = 0"
  by (simp add: round64_def)

lemma round64_nonneg: "0 \<le> x \<Longrightarrow> 0 \<le> round64 x"
proof -
  assume "0 \<le> x"
  then have "(of_int 0 :: real) \<le> x / 2 powi quantum x" by simp
  then have "0 \<le> rne (x / 2 powi quantum x)" by (rule rne_ge)
  then show ?thesis by (simp add: round64_def)
qed

lemma round64_nonpos: "x \<le> 0 \<Longrightarrow> round64 x \<le> 0"
  using round64_nonneg [of "- x"] by (simp add: round64_minus)

text \<open>A multiple of a power of two no finer than the quantum is not changed.\<close>

lemma round64_grid:
  assumes "x = of_int k * 2 powi q" and "quantum x \<le> q"
  shows "round64 x = x"
proof -
  define Q where "Q = quantum x"
  define d where "d = nat (q - Q)"
  have q: "q = Q + int d" using assms(2) by (simp add: d_def Q_def)
  have x: "x = of_int (k * 2 ^ d) * 2 powi Q"
    unfolding assms(1) q pow2_add by simp
  then have "x / 2 powi Q = of_int (k * 2 ^ d)" by simp
  then have "rne (x / 2 powi Q) = k * 2 ^ d" by (simp only: rne_of_int)
  then have "round64 x = of_int (k * 2 ^ d) * 2 powi Q"
    by (simp only: round64_def Q_def [symmetric])
  with x show ?thesis by simp
qed

lemma round64_upper:
  assumes "0 < x"
  shows "round64 x \<le> 2 powi (max (expo x) (- 1022) + 1)"
proof -
  let ?e = "max (expo x) (- 1022)"
  have q: "quantum x = ?e - 52" using assms by (simp add: quantum_def)
  have "x < 2 powi (expo x + 1)" using expo_bounds [OF assms] by simp
  also have "\<dots> \<le> 2 powi (?e + 1)" by (rule pow2_mono) simp
  finally have "x / 2 powi quantum x \<le> 2 powi (?e + 1) / 2 powi quantum x"
    by (simp add: divide_right_mono)
  also have "\<dots> = 2 powi 53" unfolding q pow2_diff [symmetric] by simp
  also have "\<dots> = of_int (2 ^ 53)" by simp
  finally have "rne (x / 2 powi quantum x) \<le> 2 ^ 53" by (rule rne_le)
  then have "(of_int (rne (x / 2 powi quantum x)) :: real) \<le> of_int (2 ^ 53)"
    by (simp only: of_int_le_iff)
  then have "round64 x \<le> of_int (2 ^ 53) * 2 powi quantum x"
    by (simp add: round64_def)
  also have "\<dots> = 2 powi 53 * 2 powi quantum x" by simp
  also have "\<dots> = 2 powi (?e + 1)" unfolding q pow2_add [symmetric] by (simp add: add.commute)
  finally show ?thesis .
qed

lemma round64_lower:
  assumes "0 < x" and "- 1022 \<le> expo x"
  shows "2 powi expo x \<le> round64 x"
proof -
  have q: "quantum x = expo x - 52" using assms by (simp add: quantum_def)
  have "(2::real) powi 52 = 2 powi expo x / 2 powi quantum x"
    unfolding q pow2_diff [symmetric] by simp
  also have "\<dots> \<le> x / 2 powi quantum x"
    using expo_bounds [OF assms(1)] by (simp add: divide_right_mono)
  finally have "(of_int (2 ^ 52) :: real) \<le> x / 2 powi quantum x" by simp
  then have "2 ^ 52 \<le> rne (x / 2 powi quantum x)" by (rule rne_ge)
  then have "(of_int (2 ^ 52) :: real) \<le> of_int (rne (x / 2 powi quantum x))"
    by (simp only: of_int_le_iff)
  then have "of_int (2 ^ 52) * 2 powi quantum x \<le> round64 x"
    by (simp add: round64_def)
  moreover have "(of_int (2 ^ 52) :: real) * 2 powi quantum x = 2 powi expo x"
  proof -
    have "(of_int (2 ^ 52) :: real) * 2 powi quantum x = 2 powi 52 * 2 powi quantum x" by simp
    also have "\<dots> = 2 powi expo x" unfolding q pow2_add [symmetric] by simp
    finally show ?thesis .
  qed
  ultimately show ?thesis by simp
qed

lemma round64_mono_pos:
  assumes "0 < x" and "x \<le> y"
  shows "round64 x \<le> round64 y"
proof -
  have y: "0 < y" using assms by simp
  have qle: "quantum x \<le> quantum y" using assms by (rule quantum_mono)
  show ?thesis
  proof (cases "quantum x = quantum y")
    case True
    have "x / 2 powi quantum x \<le> y / 2 powi quantum x"
      using assms(2) by (simp add: divide_right_mono)
    then have "rne (x / 2 powi quantum x) \<le> rne (y / 2 powi quantum x)" by (rule rne_mono)
    then have "(of_int (rne (x / 2 powi quantum x)) :: real) \<le> of_int (rne (y / 2 powi quantum x))"
      by (simp only: of_int_le_iff)
    then show ?thesis by (simp add: round64_def True [symmetric])
  next
    case False
    with qle have lt: "quantum x < quantum y" by simp
    then have e: "max (expo x) (- 1022) < expo y" "- 1022 \<le> expo y"
      using assms y by (auto simp: quantum_def)
    have "round64 x \<le> 2 powi (max (expo x) (- 1022) + 1)" using assms(1) by (rule round64_upper)
    also have "\<dots> \<le> 2 powi expo y" using e(1) by (intro pow2_mono) linarith
    also have "\<dots> \<le> round64 y" using y e(2) by (rule round64_lower)
    finally show ?thesis .
  qed
qed

lemma round64_mono:
  assumes "x \<le> y"
  shows "round64 x \<le> round64 y"
proof -
  consider "0 < x" | "x \<le> 0" "0 \<le> y" | "y < 0" by linarith
  then show ?thesis
  proof cases
    case 1
    then show ?thesis using assms by (rule round64_mono_pos)
  next
    case 2
    from round64_nonpos [OF 2(1)] round64_nonneg [OF 2(2)] show ?thesis by simp
  next
    case 3
    then have "0 < - y" "- y \<le> - x" using assms by simp_all
    then have "round64 (- y) \<le> round64 (- x)" by (rule round64_mono_pos)
    then show ?thesis by (simp add: round64_minus)
  qed
qed

lemma round64_idem_pos:
  assumes "0 < x"
  shows "round64 (round64 x) = round64 x"
proof -
  let ?e = "max (expo x) (- 1022)"
  define n where "n = rne (x / 2 powi quantum x)"
  have q: "quantum x = ?e - 52" using assms by (simp add: quantum_def)
  have y: "round64 x = of_int n * 2 powi quantum x" by (simp add: round64_def n_def)
  have n0: "0 \<le> n" unfolding n_def using assms by (intro rne_ge) simp
  have up: "round64 x \<le> 2 powi (?e + 1)" using assms by (rule round64_upper)
  show ?thesis
  proof (cases "round64 x = 0")
    case True
    then show ?thesis by simp
  next
    case False
    with round64_nonneg [of x] assms have pos: "0 < round64 x" by simp
    show ?thesis
    proof (cases "round64 x < 2 powi (?e + 1)")
      case True
      from expo_bounds [OF pos] True have "(2::real) powi expo (round64 x) < 2 powi (?e + 1)"
        by linarith
      then have "expo (round64 x) < ?e + 1" by (rule pow2_less_cancel)
      then have "quantum (round64 x) \<le> quantum x"
        using pos assms by (simp add: quantum_def)
      with y show ?thesis by (rule round64_grid)
    next
      case False
      with up have eq: "round64 x = 2 powi (?e + 1)" by simp
      have "expo (round64 x) = ?e + 1"
        unfolding eq
      proof (rule expo_unique)
        show "(2::real) powi (?e + 1) \<le> 2 powi (?e + 1)" by simp
        show "(2::real) powi (?e + 1) < 2 powi (?e + 1 + 1)"
          by (rule power_int_strict_increasing) simp_all
      qed
      then have qy: "quantum (round64 x) = ?e + 1 - 52"
        using pos by (simp add: quantum_def)
      have "round64 x = of_int (2 ^ 52) * 2 powi (?e + 1 - 52)"
      proof -
        have "(of_int (2 ^ 52) :: real) * 2 powi (?e + 1 - 52) = 2 powi 52 * 2 powi (?e + 1 - 52)"
          by simp
        also have "\<dots> = 2 powi (?e + 1)"
          unfolding pow2_add [symmetric] by (simp add: add.commute)
        finally show ?thesis by (simp add: eq)
      qed
      then show ?thesis by (rule round64_grid) (simp add: qy)
    qed
  qed
qed

lemma round64_idem [simp]: "round64 (round64 x) = round64 x"
proof -
  consider "0 < x" | "x = 0" | "x < 0" by linarith
  then show ?thesis
  proof cases
    case 1
    then show ?thesis by (rule round64_idem_pos)
  next
    case 2
    then show ?thesis by simp
  next
    case 3
    then have "round64 (round64 (- x)) = round64 (- x)" by (intro round64_idem_pos) simp
    then show ?thesis by (simp add: round64_minus)
  qed
qed

section \<open>Whole numbers and the largest finite value\<close>

lemma quantum_le_bound:
  assumes "x \<noteq> 0" and "\<bar>x\<bar> < 2 powi (e + 1)"
  shows "quantum x \<le> max e (- 1022) - 52"
proof -
  have "0 < \<bar>x\<bar>" using assms(1) by simp
  from expo_bounds [OF this] assms(2) have "(2::real) powi expo \<bar>x\<bar> < 2 powi (e + 1)"
    by linarith
  then have "expo \<bar>x\<bar> < e + 1" by (rule pow2_less_cancel)
  then show ?thesis by (simp add: quantum_def)
qed

lemma round64_of_int:
  assumes "\<bar>n\<bar> \<le> 2 ^ 53"
  shows "round64 (of_int n) = of_int n"
proof -
  consider "n = 0" | "n \<noteq> 0" "\<bar>n\<bar> < 2 ^ 53" | "\<bar>n\<bar> = 2 ^ 53" using assms by linarith
  then show ?thesis
  proof cases
    case 1
    then show ?thesis by simp
  next
    case 2
    have "\<bar>of_int n :: real\<bar> = of_int \<bar>n\<bar>" by simp
    also have "\<dots> < of_int (2 ^ 53)" using 2(2) by (simp only: of_int_less_iff)
    also have "\<dots> = 2 powi (52 + 1)" by simp
    finally have "quantum (of_int n) \<le> max 52 (- 1022) - 52"
      using 2(1) by (intro quantum_le_bound) simp_all
    then have "quantum (of_int n) \<le> 0" by simp
    moreover have "(of_int n :: real) = of_int n * 2 powi 0" by simp
    ultimately show ?thesis by (intro round64_grid)
  next
    case 3
    have abs: "\<bar>of_int n :: real\<bar> = 2 powi 53"
    proof -
      have "\<bar>of_int n :: real\<bar> = of_int \<bar>n\<bar>" by simp
      also have "\<dots> = of_int (2 ^ 53)" by (simp only: 3)
      finally show ?thesis by simp
    qed
    have "quantum (of_int n) = max 53 (- 1022) - 52"
      by (rule quantum_eq) (simp_all add: abs)
    then have q: "quantum (of_int n) \<le> 1" by simp
    from 3 have "n = 2 ^ 53 \<or> n = - (2 ^ 53)" by linarith
    then have "(of_int n :: real) = of_int (n div 2) * 2 powi 1" by auto
    then show ?thesis using q by (rule round64_grid)
  qed
qed

lemma round64_of_nat: "n \<le> 2 ^ 53 \<Longrightarrow> round64 (of_nat n) = of_nat n"
  using round64_of_int [of "int n"] by simp

lemma round64_1 [simp]: "round64 1 = 1"
  using round64_of_int [of 1] by simp

text \<open>The largest finite binary64 value is \<open>2^1024 - 2^971\<close>.\<close>

lemma float_le_max:
  assumes "round64 w = w" and "0 \<le> w" and "w < 2 powi 1024"
  shows "w \<le> 2 powi 1024 - 2 powi 971"
proof (cases "w < 2 powi 1023")
  case True
  have "(2::real) powi 1024 = 2 powi 1023 + 2 powi 1023"
    using pow2_add [of 1023 1] by simp
  moreover have "(2::real) powi 971 \<le> 2 powi 1023" by (rule pow2_mono) simp
  ultimately show ?thesis using True by linarith
next
  case False
  then have lo: "2 powi 1023 \<le> \<bar>w\<bar>" using assms(2) by simp
  have hi: "\<bar>w\<bar> < 2 powi (1023 + 1)" using assms(2,3) by simp
  from quantum_eq [OF lo hi] have q: "quantum w = 971" by simp
  define n where "n = rne (w / 2 powi 971)"
  have w: "w = of_int n * 2 powi 971"
    using assms(1) by (simp add: round64_def q n_def)
  have "of_int n * 2 powi 971 < (2::real) powi 53 * 2 powi 971"
    using assms(3) w pow2_add [of 53 971] by simp
  then have "(of_int n :: real) < 2 powi 53" by (simp only: mult_less_cancel_right_pos pow2_pos)
  then have "(of_int n :: real) < of_int (2 ^ 53)" by simp
  then have "n < 2 ^ 53" by (simp only: of_int_less_iff)
  then have "n \<le> 2 ^ 53 - 1" by simp
  then have "(of_int n :: real) \<le> of_int (2 ^ 53 - 1)" by (simp only: of_int_le_iff)
  then have "(of_int n :: real) \<le> 2 powi 53 - 1" by simp
  then have "of_int n * (2::real) powi 971 \<le> (2 powi 53 - 1) * 2 powi 971"
    by (simp only: mult_le_cancel_right_pos pow2_pos)
  also have "\<dots> = 2 powi 1024 - 2 powi 971"
    using pow2_add [of 53 971] by (simp add: algebra_simps)
  finally show ?thesis using w by simp
qed

lemma round64_max_plus_1: "round64 (2 powi 1024 - 2 powi 971 + 1) = 2 powi 1024 - 2 powi 971"
proof -
  let ?x = "(2::real) powi 1024 - 2 powi 971 + 1"
  have p: "(2::real) powi 1024 = 2 powi 53 * 2 powi 971" "(2::real) powi 1023 = 2 powi 52 * 2 powi 971"
    using pow2_add [of 53 971] pow2_add [of 52 971] by simp_all
  have big: "(2::real) \<le> 2 powi 971"
    using pow2_mono [of 1 971] by simp
  have x: "?x = (2 powi 53 - 1) * 2 powi 971 + 1" by (simp add: p algebra_simps)
  have lo: "2 powi 1023 \<le> \<bar>?x\<bar>"
  proof -
    have "(2::real) powi 52 * 2 powi 971 \<le> (2 powi 53 - 1) * 2 powi 971"
      by (simp only: mult_le_cancel_right_pos pow2_pos) simp
    then show ?thesis unfolding x p by simp
  qed
  have hi: "\<bar>?x\<bar> < 2 powi (1023 + 1)"
  proof -
    have "?x < 2 powi 1024" using big by linarith
    moreover have "0 \<le> ?x" using pow2_mono [of 971 1024] by simp
    ultimately show ?thesis by simp
  qed
  from quantum_eq [OF lo hi] have q: "quantum ?x = 971" by simp
  have "?x / 2 powi 971 = (2 powi 53 - 1) + 1 / 2 powi 971"
    unfolding x by (simp add: field_simps)
  moreover have "0 < 1 / (2::real) powi 971" by simp
  moreover have "1 / (2::real) powi 971 \<le> 1 / 2"
    using big by (simp add: field_simps)
  moreover have "(2::real) powi 53 - 1 = of_int (2 ^ 53 - 1)" by simp
  ultimately have "\<bar>?x / 2 powi 971 - of_int (2 ^ 53 - 1)\<bar> < 1 / 2"
    using big by (simp add: field_simps)
  then have "rne (?x / 2 powi 971) = 2 ^ 53 - 1" by (rule rne_near)
  then have "round64 ?x = of_int (2 ^ 53 - 1) * 2 powi 971"
    by (simp only: round64_def q)
  also have "\<dots> = (2 powi 53 - 1) * 2 powi 971" by simp
  also have "\<dots> = 2 powi 1024 - 2 powi 971" by (simp add: p algebra_simps)
  finally show ?thesis .
qed

lemma round64_succ_finite:
  assumes "round64 w = w" and "0 \<le> w" and "w < 2 powi 1024"
  shows "round64 (w + 1) < 2 powi 1024"
proof -
  have "w + 1 \<le> 2 powi 1024 - 2 powi 971 + 1"
    using float_le_max [OF assms] by simp
  then have "round64 (w + 1) \<le> round64 (2 powi 1024 - 2 powi 971 + 1)"
    by (rule round64_mono)
  also have "\<dots> = 2 powi 1024 - 2 powi 971" by (rule round64_max_plus_1)
  also have "\<dots> < 2 powi 1024" by simp
  finally show ?thesis .
qed

section \<open>Rounding with overflow\<close>

lemma fl_cases:
  obtains "fl x = PosInf" "2 ^ 1024 \<le> round64 x"
  | "fl x = NegInf" "round64 x \<le> - (2 ^ 1024)"
  | "fl x = Finite (round64 x)" "\<bar>round64 x\<bar> < 2 ^ 1024"
  unfolding fl_def Let_def by (cases "2 ^ 1024 \<le> round64 x"; cases "round64 x \<le> - (2 ^ 1024)") auto

lemma fl_float: "round64 x = x \<Longrightarrow> \<bar>x\<bar> < 2 ^ 1024 \<Longrightarrow> fl x = Finite x"
  by (auto simp: fl_def Let_def)

lemma fl_0 [simp]: "fl 0 = Finite 0"
  by (rule fl_float) simp_all

lemma is_f64_fl [simp]: "is_f64 (fl x)"
  by (cases x rule: fl_cases) simp_all

lemma fl_mono:
  assumes "x \<le> y"
  shows "f64_le (fl x) (fl y)"
proof -
  note m = round64_mono [OF assms]
  show ?thesis
  proof (cases y rule: fl_cases)
    case 1
    then show ?thesis by (cases x rule: fl_cases) (simp_all add: f64_le_def)
  next
    case 2
    with m have "round64 x \<le> - (2 ^ 1024)" by linarith
    then have "fl x = NegInf" by (cases x rule: fl_cases) auto
    with 2 show ?thesis by (simp add: f64_le_def)
  next
    case 3
    with m have "round64 x < 2 ^ 1024" by linarith
    then show ?thesis using 3 m by (cases x rule: fl_cases) (auto simp: f64_le_def)
  qed
qed

lemma fl_between:
  assumes "0 \<le> x" and "x \<le> of_int n" and "n \<le> 2 ^ 53"
  shows "\<exists>y. fl x = Finite y \<and> 0 \<le> y \<and> y \<le> of_int n"
proof -
  have n0: "(0::real) \<le> of_int n" using assms(1,2) by linarith
  then have "0 \<le> n" by simp
  then have "\<bar>n\<bar> \<le> 2 ^ 53" using assms(3) by simp
  then have rn: "round64 (of_int n) = of_int n" by (rule round64_of_int)
  have "(of_int n :: real) \<le> of_int (2 ^ 53)" using assms(3) by (simp only: of_int_le_iff)
  then have nb: "(of_int n :: real) \<le> 2 ^ 53" by simp
  have up: "round64 x \<le> of_int n" using round64_mono [OF assms(2)] rn by simp
  have lo: "0 \<le> round64 x" using assms(1) by (rule round64_nonneg)
  have "(2::real) ^ 53 < 2 ^ 1024" by (rule power_strict_increasing) simp_all
  with up lo nb have "\<bar>round64 x\<bar> < 2 ^ 1024" by linarith
  then have "fl x = Finite (round64 x)" by (auto simp: fl_def Let_def)
  with up lo show ?thesis by blast
qed

lemma quot_rem_nonneg:
  assumes "0 \<le> d"
  shows "quot d 1000000000 = d div 1000000000" and "rem d 1000000000 = d mod 1000000000"
proof -
  show q: "quot d 1000000000 = d div 1000000000"
    using assms by (cases "d = 0") (simp_all add: quot_def)
  show "rem d 1000000000 = d mod 1000000000"
    unfolding rem_def q by (simp add: minus_mult_div_eq_mod)
qed

lemma Seconds_f64_nonneg:
  assumes "0 \<le> d" and "d \<le> 9223372036854775807"
  shows "\<exists>e. Seconds_f64 d = Finite e \<and> 0 \<le> e"
proof -
  let ?sec = "d div 1000000000" and ?nsec = "d mod 1000000000"
  have sec: "0 \<le> ?sec" "?sec \<le> 9223372036" using assms by simp_all
  have nsec: "0 \<le> ?nsec" "?nsec < 1000000000" by simp_all
  have a: "float64_of_int ?sec = Finite (of_int ?sec)"
    unfolding float64_of_int_def
  proof (rule fl_float)
    show "round64 (of_int ?sec) = of_int ?sec" using sec by (intro round64_of_int) simp
    have "\<bar>of_int ?sec :: real\<bar> \<le> 9223372036" using sec by simp
    also have "\<dots> < 2 ^ 1024" by simp
    finally show "\<bar>of_int ?sec :: real\<bar> < 2 ^ 1024" .
  qed
  have b: "float64_of_int ?nsec = Finite (of_int ?nsec)"
    unfolding float64_of_int_def
  proof (rule fl_float)
    show "round64 (of_int ?nsec) = of_int ?nsec" using nsec by (intro round64_of_int) simp
    have "\<bar>of_int ?nsec :: real\<bar> \<le> 1000000000" using nsec by simp
    also have "\<dots> < 2 ^ 1024" by simp
    finally show "\<bar>of_int ?nsec :: real\<bar> < 2 ^ 1024" .
  qed
  have "0 \<le> (of_int ?nsec :: real) / 1000000000" "(of_int ?nsec :: real) / 1000000000 \<le> of_int 1"
    using nsec by simp_all
  from fl_between [OF this] obtain q where q:
    "fl (of_int ?nsec / 1000000000) = Finite q" "0 \<le> q" "q \<le> 1" by auto
  have "0 \<le> of_int ?sec + q" "of_int ?sec + q \<le> of_int 9223372037"
    using sec q by simp_all
  from fl_between [OF this] obtain e where e: "fl (of_int ?sec + q) = Finite e" "0 \<le> e" by auto
  have "Seconds_f64 d = Finite e"
    by (simp add: Seconds_f64_def Let_def quot_rem_nonneg [OF assms(1)] a b q e)
  with e show ?thesis by blast
qed

lemma subMono_range:
  "u \<le> t \<Longrightarrow> 0 \<le> subMono t u \<and> subMono t u \<le> 9223372036854775807"
  by (simp add: subMono_def Let_def)

section \<open>The invariant of the binary64 leaky bucket\<close>


lemma f64_le_Finite_down:
  "f64_le (Finite w) b \<Longrightarrow> v \<le> w \<Longrightarrow> f64_le (Finite v) b"
  by (cases b) (auto simp: f64_le_def)

lemma f64_le_0_cases:
  assumes "f64_le (Finite 0) b"
  obtains c where "b = Finite c" "0 \<le> c" | "b = PosInf"
  using assms by (cases b) (auto simp: f64_le_def)

lemma lbf_invE:
  assumes "lbf_inv lb"
  obtains r w where "lbf_leakRate lb = Finite r" "lbf_water lb = Finite w"
    "0 \<le> r" "0 \<le> w" "round64 w = w" "w < 2 ^ 1024"
    "f64_le (Finite 0) (lbf_capacity lb)"
    "f64_le (Finite w) (f64_add (lbf_capacity lb) (Finite 1))"
  using assms unfolding lbf_inv_def
  by (cases "lbf_leakRate lb"; cases "lbf_water lb") auto

lemma lbf_invI:
  assumes "lbf_leakRate lb = Finite r" "lbf_water lb = Finite w"
    "0 \<le> r" "0 \<le> w" "round64 w = w" "w < 2 ^ 1024"
    "f64_le (Finite 0) (lbf_capacity lb)"
    "f64_le (Finite w) (f64_add (lbf_capacity lb) (Finite 1))"
  shows "lbf_inv lb"
  using assms by (simp add: lbf_inv_def)

lemma lbf_leak_fields:
  "lbf_capacity (lbf_leak lb now) = lbf_capacity lb"
  "lbf_leakRate (lbf_leak lb now) = lbf_leakRate lb"
  "lbf_lastTime (lbf_leak lb now) = now"
  by (simp_all add: lbf_leak_def Let_def)

lemma lbf_leak_water:
  assumes "lbf_inv lb" and "lbf_lastTime lb \<le> now"
  obtains w v where "lbf_water lb = Finite w" "lbf_water (lbf_leak lb now) = Finite v"
    "0 \<le> v" "v \<le> w" "round64 v = v"
proof -
  from assms(1) obtain r w where f: "lbf_leakRate lb = Finite r" "lbf_water lb = Finite w"
    "0 \<le> r" "0 \<le> w" "round64 w = w" "w < 2 ^ 1024"
    by (rule lbf_invE)
  from subMono_range [OF assms(2)] Seconds_f64_nonneg
  obtain e where e: "Seconds_f64 (subMono now (lbf_lastTime lb)) = Finite e" "0 \<le> e"
    by blast
  have er: "0 \<le> round64 (e * r)" using e(2) f(3) by (intro round64_nonneg) simp
  have wl: "round64 (w - l) \<le> w" if "0 \<le> l" for l
  proof -
    have "round64 (w - l) \<le> round64 w" using that by (intro round64_mono) simp
    then show ?thesis by (simp add: f(5))
  qed
  have water: "lbf_water (lbf_leak lb now) = f64_max (Finite 0) (f64_sub (Finite w) (fl (e * r)))"
    by (simp add: lbf_leak_def Let_def e f)
  show ?thesis
  proof (cases "e * r" rule: fl_cases)
    case 1
    then have "lbf_water (lbf_leak lb now) = Finite 0"
      by (simp add: water f64_sub_def)
    with f show ?thesis by (intro that [of w 0]) simp_all
  next
    case 2
    with er show ?thesis by simp
  next
    case 3
    let ?l = "round64 (e * r)"
    have sub: "f64_sub (Finite w) (fl (e * r)) = fl (w - ?l)"
      by (simp add: 3 f64_sub_def)
    show ?thesis
    proof (cases "w - ?l" rule: fl_cases)
      case 1
      with wl [OF er] f(6) show ?thesis by simp
    next
      case 2
      then have "lbf_water (lbf_leak lb now) = Finite 0" by (simp add: water sub)
      with f show ?thesis by (intro that [of w 0]) simp_all
    next
      case 3
      let ?y = "round64 (w - ?l)"
      have "lbf_water (lbf_leak lb now) = Finite (max 0 ?y)"
        by (simp add: water sub 3 max_def)
      moreover have "max 0 ?y \<le> w" using wl [OF er] f(4) by simp
      moreover have "round64 (max 0 ?y) = max 0 ?y" by (simp add: max_def)
      ultimately show ?thesis using f(2) by (intro that [of w "max 0 ?y"]) simp_all
    qed
  qed
qed

lemma lbf_leak_inv:
  assumes "lbf_inv lb" and "lbf_lastTime lb \<le> now"
  shows "lbf_inv (lbf_leak lb now)"
proof -
  from assms(1) obtain r w where f: "lbf_leakRate lb = Finite r" "lbf_water lb = Finite w"
    "0 \<le> r" "0 \<le> w" "round64 w = w" "w < 2 ^ 1024"
    "f64_le (Finite 0) (lbf_capacity lb)"
    "f64_le (Finite w) (f64_add (lbf_capacity lb) (Finite 1))"
    by (rule lbf_invE)
  from assms obtain w' v where v: "lbf_water lb = Finite w'"
    "lbf_water (lbf_leak lb now) = Finite v" "0 \<le> v" "v \<le> w'" "round64 v = v"
    by (rule lbf_leak_water)
  from v(1) f(2) have w': "w' = w" by simp
  show ?thesis
  proof (rule lbf_invI)
    show "lbf_leakRate (lbf_leak lb now) = Finite r" by (simp add: lbf_leak_fields f)
    show "lbf_water (lbf_leak lb now) = Finite v" by (rule v(2))
    show "0 \<le> r" "0 \<le> v" "round64 v = v" by (rule f v)+
    show "v < 2 ^ 1024" using v(4) w' f(6) by linarith
    show "f64_le (Finite 0) (lbf_capacity (lbf_leak lb now))"
      using f(7) by (simp add: lbf_leak_fields)
    show "f64_le (Finite v) (f64_add (lbf_capacity (lbf_leak lb now)) (Finite 1))"
      using f(8) v(4) w' by (auto simp: lbf_leak_fields elim: f64_le_Finite_down)
  qed
qed

lemma lbf_admit_inv:
  assumes "lbf_inv lb" and "f64_less (lbf_water lb) (lbf_capacity lb)"
  shows "lbf_inv (lb\<lparr>lbf_water := f64_add (lbf_water lb) (Finite 1)\<rparr>)"
proof -
  from assms(1) obtain r w where f: "lbf_leakRate lb = Finite r" "lbf_water lb = Finite w"
    "0 \<le> r" "0 \<le> w" "round64 w = w" "w < 2 ^ 1024"
    "f64_le (Finite 0) (lbf_capacity lb)"
    by (rule lbf_invE)
  have fin: "round64 (w + 1) < 2 ^ 1024"
    using round64_succ_finite [of w] f by simp
  have nn: "0 \<le> round64 (w + 1)" using f(4) by (intro round64_nonneg) simp
  from fin nn have fl: "fl (w + 1) = Finite (round64 (w + 1))"
    by (cases "w + 1" rule: fl_cases) simp_all
  have le: "f64_le (Finite (round64 (w + 1))) (f64_add (lbf_capacity lb) (Finite 1))"
    using f(7)
  proof (cases rule: f64_le_0_cases)
    case (1 c)
    with assms(2) have "w < c" by (simp add: f)
    then have "f64_le (fl (w + 1)) (fl (c + 1))" by (intro fl_mono) simp
    with 1 show ?thesis by (simp add: fl)
  next
    case 2
    then show ?thesis by (simp add: f64_le_def)
  qed
  show ?thesis
  proof (rule lbf_invI)
    show "lbf_water (lb\<lparr>lbf_water := f64_add (lbf_water lb) (Finite 1)\<rparr>)
        = Finite (round64 (w + 1))"
      by (simp add: f fl)
    show "f64_le (Finite (round64 (w + 1)))
        (f64_add (lbf_capacity (lb\<lparr>lbf_water := f64_add (lbf_water lb) (Finite 1)\<rparr>)) (Finite 1))"
      using le by simp
  qed (use f fin nn in simp_all)
qed

lemma lbf_step_inv:
  assumes "lbf_inv lb" and "lbf_lastTime lb \<le> snd c"
  shows "lbf_inv (lbf_step lb c) \<and> lbf_lastTime (lbf_step lb c) = snd c
         \<and> lbf_capacity (lbf_step lb c) = lbf_capacity lb"
proof -
  obtain k now where c: "c = (k, now)" by (cases c)
  have l: "lbf_inv (lbf_leak lb now)" using assms c by (intro lbf_leak_inv) simp_all
  show ?thesis
  proof (cases k)
    case LB_AllowRequest
    show ?thesis
    proof (cases "f64_less (lbf_water (lbf_leak lb now)) (lbf_capacity (lbf_leak lb now))")
      case True
      from lbf_admit_inv [OF l True] True show ?thesis
        by (simp add: c LB_AllowRequest lbf_AllowRequest_def Let_def lbf_leak_fields)
    next
      case False
      with l show ?thesis
        by (simp add: c LB_AllowRequest lbf_AllowRequest_def Let_def lbf_leak_fields)
    qed
  next
    case LB_GetWaterLevel
    with l show ?thesis by (simp add: c lbf_GetWaterLevel_def Let_def lbf_leak_fields)
  next
    case LB_GetCapacityUsed
    with l show ?thesis by (simp add: c lbf_GetCapacityUsed_def Let_def lbf_leak_fields)
  qed
qed

lemma lbf_run_inv:
  "lbf_inv lb \<Longrightarrow> sorted (lbf_lastTime lb # map snd cs) \<Longrightarrow>
   lbf_inv (lbf_run lb cs) \<and> lbf_capacity (lbf_run lb cs) = lbf_capacity lb"
proof (induction cs arbitrary: lb)
  case Nil
  then show ?case by simp
next
  case (Cons c cs)
  from Cons.prems have le: "lbf_lastTime lb \<le> snd c" by simp
  note st = lbf_step_inv [OF Cons.prems(1) le]
  from Cons.prems(2) st have "sorted (lbf_lastTime (lbf_step lb c) # map snd cs)"
    by simp
  with Cons.IH [of "lbf_step lb c"] st show ?case by simp
qed

section \<open>Rounding a given number\<close>

lemma round64_near:
  assumes "2 powi e \<le> \<bar>x\<bar>" and "\<bar>x\<bar> < 2 powi (e + 1)" and "- 1022 \<le> e"
    and "\<bar>x / 2 powi (e - 52) - of_int n\<bar> < 1 / 2"
  shows "round64 x = of_int n * 2 powi (e - 52)"
proof -
  from quantum_eq [OF assms(1,2)] assms(3) have q: "quantum x = e - 52" by simp
  from assms(4) have "rne (x / 2 powi (e - 52)) = n" by (rule rne_near)
  then show ?thesis by (simp add: round64_def q)
qed

lemma round64_tie:
  assumes "2 powi e \<le> \<bar>x\<bar>" and "\<bar>x\<bar> < 2 powi (e + 1)" and "- 1022 \<le> e"
    and "x / 2 powi (e - 52) = of_int n + 1 / 2"
  shows "round64 x = of_int (if even n then n else n + 1) * 2 powi (e - 52)"
proof -
  from quantum_eq [OF assms(1,2)] assms(3) have q: "quantum x = e - 52" by simp
  from assms(4) have "rne (x / 2 powi (e - 52)) = (if even n then n else n + 1)" by (rule rne_tie)
  then show ?thesis by (simp only: round64_def q)
qed

lemma fl_Finite:
  assumes "round64 x = y" and "\<bar>y\<bar> < 2 ^ 1024"
  shows "fl x = Finite y"
  using assms by (auto simp: fl_def Let_def)

lemma fl_near:
  assumes "2 powi e \<le> \<bar>x\<bar>" and "\<bar>x\<bar> < 2 powi (e + 1)" and "- 1022 \<le> e"
    and "\<bar>x / 2 powi (e - 52) - of_int n\<bar> < 1 / 2"
    and "y = of_int n * 2 powi (e - 52)" and "\<bar>y\<bar> < 2 ^ 1024"
  shows "fl x = Finite y"
  using round64_near [OF assms(1-4)] assms(5,6) by (intro fl_Finite) simp_all

lemma fl_tie:
  assumes "2 powi e \<le> \<bar>x\<bar>" and "\<bar>x\<bar> < 2 powi (e + 1)" and "- 1022 \<le> e"
    and "x / 2 powi (e - 52) = of_int n + 1 / 2"
    and "y = of_int (if even n then n else n + 1) * 2 powi (e - 52)" and "\<bar>y\<bar> < 2 ^ 1024"
  shows "fl x = Finite y"
  using round64_tie [OF assms(1-4)] assms(5,6) by (intro fl_Finite) simp_all

section \<open>Evaluating the binary64 model\<close>

lemma fl_idem: "fl x = Finite y \<Longrightarrow> fl y = Finite y"
  by (cases x rule: fl_cases) (auto intro: fl_Finite)

lemma fl_of_nat: "n \<le> 2 ^ 53 \<Longrightarrow> fl (of_nat n) = Finite (of_nat n)"
proof -
  assume n: "n \<le> 2 ^ 53"
  then have "(of_nat n :: real) \<le> of_nat (2 ^ 53)" by (simp only: of_nat_le_iff)
  then have "(of_nat n :: real) \<le> 2 ^ 53" by simp
  moreover have "(2::real) ^ 53 < 2 ^ 1024" by (rule power_strict_increasing) simp_all
  ultimately have "\<bar>of_nat n :: real\<bar> < 2 ^ 1024" by simp
  with round64_of_nat [OF n] show ?thesis by (rule fl_Finite)
qed

lemma fl_numeral: "numeral k \<le> (2::nat) ^ 53 \<Longrightarrow> fl (numeral k) = Finite (numeral k)"
  using fl_of_nat [of "numeral k"] by simp

lemma fl_1 [simp]: "fl 1 = Finite 1"
  using fl_of_nat [of 1] by simp

lemma Seconds_f64_0 [simp]: "Seconds_f64 0 = Finite 0"
  by (simp add: Seconds_f64_def quot_def rem_def float64_of_int_def)

lemma subMono_same [simp]: "subMono t t = 0"
  by (simp add: subMono_def)

lemma fl_7_tenths: "fl (7 / 10) = Finite (3152519739159347 / 4503599627370496)"
  by (rule fl_near [where e = "- 1" and n = 6305039478318694]) simp_all

lemma fl_2_minus_07:
  "fl (5854679515581645 / 4503599627370496)
     = Finite (5854679515581645 / 4503599627370496)"
  by (rule fl_near [where e = 0 and n = 5854679515581645]) simp_all

lemma fl_13_plus_1:
  "fl (10358279142952141 / 4503599627370496)
     = Finite (2589569785738035 / 1125899906842624)"
  by (rule fl_tie [where e = 1 and n = 5179139571476070]) simp_all

lemma fl_4_fifths: "fl (4 / 5) = Finite (3602879701896397 / 4503599627370496)"
  by (rule fl_near [where e = "- 1" and n = 7205759403792794]) simp_all

lemma fl_23_minus_08:
  "fl (6755399441055743 / 4503599627370496)
     = Finite (6755399441055743 / 4503599627370496)"
  by (rule fl_near [where e = 0 and n = 6755399441055743]) simp_all

lemma fl_15_pred_plus_1:
  "fl (11258999068426239 / 4503599627370496)
     = Finite (5 / 2)"
  by (rule fl_tie [where e = 1 and n = 5629499534213119]) simp_all

lemma fl_2_54: "fl (18014398509481984) = Finite 18014398509481984"
  by (rule fl_near [where e = 54 and n = 4503599627370496]) simp_all

lemma fl_2_54_minus_1: "fl (18014398509481983) = Finite 18014398509481984"
  by (rule fl_tie [where e = 53 and n = 9007199254740991]) simp_all

lemma fl_1_half: "fl (1 / 2) = Finite (1 / 2)"
  by (rule fl_near [where e = "- 1" and n = 4503599627370496]) simp_all

lemma fl_11_halves: "fl (11 / 2) = Finite (11 / 2)"
  by (rule fl_near [where e = 2 and n = 6192449487634432]) simp_all

lemma fl_9_halves: "fl (9 / 2) = Finite (9 / 2)"
  by (rule fl_near [where e = 2 and n = 5066549580791808]) simp_all

lemma fl_3_halves: "fl (3 / 2) = Finite (3 / 2)"
  by (rule fl_near [where e = 0 and n = 6755399441055744]) simp_all

lemma fl_5_halves: "fl (5 / 2) = Finite (5 / 2)"
  by (rule fl_near [where e = 1 and n = 5629499534213120]) simp_all

lemmas fl_07 = fl_idem [OF fl_7_tenths]

lemmas fl_08 = fl_idem [OF fl_4_fifths]

lemmas eval_defs =
  NewLeakyBucket_f64_def lbf_AllowRequest_def lbf_leak_def lbf_GetWaterLevel_def
  NewTokenBucket_f64_def tbf_AllowRequest_def tbf_refill_def tbf_GetTokens_def
  Seconds_f64_def subMono_def quot_def rem_def float64_of_int_def f64_sub_def f64_le_def Let_def

lemmas eval_facts =
  fl_numeral fl_7_tenths fl_07 fl_2_minus_07 fl_13_plus_1 fl_4_fifths fl_08 fl_23_minus_08
  fl_15_pred_plus_1 fl_2_54 fl_2_54_minus_1 fl_1_half fl_11_halves fl_9_halves fl_3_halves
  fl_5_halves

section \<open>Properties of the binary64 buckets\<close>

lemma f64_le_Finite: "f64_le (Finite a) (Finite b) = (a \<le> b)"
  by (auto simp: f64_le_def)

lemma is_f64_add [simp]: "is_f64 (f64_add a b)"
  by (cases a; cases b) simp_all



lemma lbf_burst:
  assumes "lbf_capacity lb = Finite c" and "lbf_leakRate lb = Finite r"
    and "lbf_water lb = Finite (real k)" and "real (k + m) \<le> c" and "k + m \<le> 2 ^ 53"
  shows "lbf_water (lbf_run lb (replicate m (LB_AllowRequest, lbf_lastTime lb)))
           = Finite (real (k + m))"
  using assms
proof (induction m arbitrary: lb k)
  case 0
  then show ?case by simp
next
  case (Suc m)
  let ?lb = "lbf_step lb (LB_AllowRequest, lbf_lastTime lb)"
  have k: "k \<le> 2 ^ 53" "Suc k \<le> 2 ^ 53" using Suc.prems(5) by simp_all
  have kc: "real k < c" using Suc.prems(4) by simp
  have leak: "lbf_water (lbf_leak lb (lbf_lastTime lb)) = Finite (real k)"
    using fl_of_nat [OF k(1)]
    by (simp add: lbf_leak_def Let_def Suc.prems(2,3) f64_sub_def)
  have st: "lbf_water ?lb = Finite (real (Suc k))" "lbf_lastTime ?lb = lbf_lastTime lb"
    "lbf_capacity ?lb = Finite c" "lbf_leakRate ?lb = Finite r"
    using kc fl_of_nat [OF k(2)] leak
    by (simp_all add: lbf_AllowRequest_def Let_def lbf_leak_fields Suc.prems(1,2) add.commute)
  have "lbf_water (lbf_run ?lb (replicate m (LB_AllowRequest, lbf_lastTime ?lb)))
      = Finite (real (Suc k + m))"
    using Suc.prems(4,5) by (intro Suc.IH st) simp_all
  from this [unfolded st(2)] show ?case by simp
qed







text \<open>
  Claim C3, amended. For a leaky bucket built with \<open>capacity \<ge> 0\<close> and a finite
  \<open>leakRate \<ge> 0\<close>, after every sequence of operations (the clock never runs backwards) the
  water is at least 0 and at most \<open>capacity + 1\<close> as binary64 computes that sum; and the
  water reaches exactly the capacity: when the capacity is a whole number \<open>n \<le> 2^53\<close>, \<open>n\<close>
  immediate requests fill the bucket to it.
\<close>

theorem lbf_water_bounds:
  assumes "f64_le (Finite 0) capacity" and "0 \<le> r" and "sorted (t0 # map snd calls)"
  shows "f64_le (Finite 0) (lbf_water (lbf_run (NewLeakyBucket_f64 capacity (Finite r) t0) calls))
       \<and> f64_le (lbf_water (lbf_run (NewLeakyBucket_f64 capacity (Finite r) t0) calls))
                (f64_add capacity (Finite 1))
       \<and> (capacity = Finite (real n) \<and> n \<le> 2 ^ 53 \<longrightarrow>
            lbf_water (lbf_run (NewLeakyBucket_f64 capacity (Finite r) t0)
                        (replicate n (LB_AllowRequest, t0))) = capacity)"
proof -
  let ?lb = "NewLeakyBucket_f64 capacity (Finite r) t0"
  have "f64_le (Finite 0) (f64_add capacity (Finite 1))"
    using assms(1)
  proof (cases rule: f64_le_0_cases)
    case (1 c)
    then have "f64_le (fl 0) (fl (c + 1))" by (intro fl_mono) simp
    with 1 show ?thesis by simp
  next
    case 2
    then show ?thesis by (simp add: f64_le_def)
  qed
  then have "lbf_inv ?lb"
    using assms(1,2) by (simp add: lbf_inv_def NewLeakyBucket_f64_def)
  moreover have "sorted (lbf_lastTime ?lb # map snd calls)"
    using assms(3) by (simp add: NewLeakyBucket_f64_def)
  ultimately have inv: "lbf_inv (lbf_run ?lb calls)
      \<and> lbf_capacity (lbf_run ?lb calls) = lbf_capacity ?lb"
    by (rule lbf_run_inv)
  then have "lbf_inv (lbf_run ?lb calls)" by simp
  then obtain r' w where f: "lbf_leakRate (lbf_run ?lb calls) = Finite r'"
    "lbf_water (lbf_run ?lb calls) = Finite w" "0 \<le> r'" "0 \<le> w" "round64 w = w"
    "w < 2 ^ 1024" "f64_le (Finite 0) (lbf_capacity (lbf_run ?lb calls))"
    "f64_le (Finite w) (f64_add (lbf_capacity (lbf_run ?lb calls)) (Finite 1))"
    by (rule lbf_invE)
  from inv have "lbf_capacity (lbf_run ?lb calls) = capacity"
    by (simp add: NewLeakyBucket_f64_def)
  with f have a: "f64_le (Finite 0) (lbf_water (lbf_run ?lb calls))
       \<and> f64_le (lbf_water (lbf_run ?lb calls)) (f64_add capacity (Finite 1))"
    by (simp add: f64_le_Finite)
  have b: "lbf_water (lbf_run ?lb (replicate n (LB_AllowRequest, t0))) = capacity"
    if "capacity = Finite (real n)" "n \<le> 2 ^ 53"
    using lbf_burst [of ?lb "real n" r 0 n] that by (simp add: NewLeakyBucket_f64_def)
  from a b show ?thesis by blast
qed

theorem lbf_water_bounds_witness:
  "f64_le (Finite 0) (Finite 2)
   \<and> f64_le (Finite 0) (lbf_water (lbf_run (NewLeakyBucket_f64 (Finite 2) (Finite 1) 0)
        [(LB_AllowRequest, 0), (LB_AllowRequest, 0), (LB_GetWaterLevel, 500000000),
         (LB_AllowRequest, 500000000)]))
   \<and> f64_le (lbf_water (lbf_run (NewLeakyBucket_f64 (Finite 2) (Finite 1) 0)
        [(LB_AllowRequest, 0), (LB_AllowRequest, 0), (LB_GetWaterLevel, 500000000),
         (LB_AllowRequest, 500000000)])) (Finite 3)
   \<and> lbf_water (lbf_run (NewLeakyBucket_f64 (Finite 2) (Finite 1) 0)
        (replicate 2 (LB_AllowRequest, 0))) = Finite 2"
  using lbf_water_bounds [of "Finite 2" 1 0
      "[(LB_AllowRequest, 0), (LB_AllowRequest, 0), (LB_GetWaterLevel, 500000000),
        (LB_AllowRequest, 500000000)]" 2]
  by (simp add: fl_numeral f64_le_Finite)

text \<open>Claim C3 as stated: with capacity 1.5 and leak rate 1, requests at 0 s, 0 s, 0.7 s and
  1.5 s are all allowed and leave the water at 2.5, which is \<open>capacity + 1\<close> and not below
  it. With an infinite leak rate and no time elapsed the leak is \<open>0 * \<infinity>\<close>, and the water
  is NaN.\<close>

theorem lbf_water_bounds_counterexample:
  "lbf_water (lbf_run (NewLeakyBucket_f64 (Finite (3 / 2)) (Finite 1) 0)
      [(LB_AllowRequest, 0), (LB_AllowRequest, 0), (LB_AllowRequest, 700000000),
       (LB_AllowRequest, 1500000000)]) = Finite (5 / 2)
   \<and> \<not> (5 / 2 :: real) < 3 / 2 + 1
   \<and> lbf_water (lbf_run (NewLeakyBucket_f64 (Finite 1) PosInf 0) [(LB_AllowRequest, 0)]) = NaN"
  by (simp add: eval_defs eval_facts)

section \<open>The token level in binary64\<close>

lemma tbf_invE:
  assumes "tbf_inv tb"
  obtains c r k where "tbf_capacity tb = Finite c" "tbf_refillRate tb = Finite r"
    "tbf_tokens tb = Finite k" "0 \<le> r" "0 \<le> k" "k \<le> c" "round64 k = k"
    "round64 c = c" "c < 2 ^ 1024"
  using assms unfolding tbf_inv_def
  by (cases "tbf_capacity tb"; cases "tbf_refillRate tb"; cases "tbf_tokens tb") auto

lemma tbf_invI:
  assumes "tbf_capacity tb = Finite c" "tbf_refillRate tb = Finite r"
    "tbf_tokens tb = Finite k" "0 \<le> r" "0 \<le> k" "k \<le> c" "round64 k = k"
    "round64 c = c" "c < 2 ^ 1024"
  shows "tbf_inv tb"
  using assms by (simp add: tbf_inv_def)

lemma tbf_refill_fields:
  "tbf_capacity (tbf_refill tb now) = tbf_capacity tb"
  "tbf_refillRate (tbf_refill tb now) = tbf_refillRate tb"
  "tbf_lastRefillTime (tbf_refill tb now) = now"
  by (simp_all add: tbf_refill_def Let_def)

lemma tbf_refill_tokens:
  assumes "tbf_inv tb" and "tbf_lastRefillTime tb \<le> now"
  obtains c v where "tbf_capacity tb = Finite c" "tbf_tokens (tbf_refill tb now) = Finite v"
    "0 \<le> v" "v \<le> c" "round64 v = v"
proof -
  from assms(1) obtain c r k where f: "tbf_capacity tb = Finite c" "tbf_refillRate tb = Finite r"
    "tbf_tokens tb = Finite k" "0 \<le> r" "0 \<le> k" "k \<le> c" "round64 k = k"
    "round64 c = c" "c < 2 ^ 1024"
    by (rule tbf_invE)
  have c0: "0 \<le> c" using f(5,6) by simp
  from subMono_range [OF assms(2)] Seconds_f64_nonneg
  obtain e where e: "Seconds_f64 (subMono now (tbf_lastRefillTime tb)) = Finite e" "0 \<le> e"
    by blast
  have er: "0 \<le> round64 (e * r)" using e(2) f(4) by (intro round64_nonneg) simp
  have tokens: "tbf_tokens (tbf_refill tb now)
      = f64_min (Finite c) (f64_add (Finite k) (fl (e * r)))"
    by (simp add: tbf_refill_def Let_def e f)
  note found = that
  have full: ?thesis if "tbf_tokens (tbf_refill tb now) = Finite c"
    using that f c0 by (intro found [of c c]) simp_all
  show ?thesis
  proof (cases "e * r" rule: fl_cases)
    case 1
    then have "tbf_tokens (tbf_refill tb now) = Finite c" by (simp add: tokens)
    then show ?thesis by (rule full)
  next
    case 2
    with er show ?thesis by simp
  next
    case 3
    let ?l = "round64 (e * r)"
    have kl: "0 \<le> round64 (k + ?l)" using f(5) er by (intro round64_nonneg) simp
    show ?thesis
    proof (cases "k + ?l" rule: fl_cases)
      case 1
      then have "tbf_tokens (tbf_refill tb now) = Finite c" by (simp add: tokens 3)
      then show ?thesis by (rule full)
    next
      case 2
      with kl show ?thesis by simp
    next
      case fin: 3
      let ?y = "round64 (k + ?l)"
      have "tbf_tokens (tbf_refill tb now) = Finite (min c ?y)"
        by (simp add: tokens 3 fin min_def)
      moreover have "round64 (min c ?y) = min c ?y" using f(8) by (simp add: min_def)
      ultimately show ?thesis using f(1) kl c0 by (intro found [of c "min c ?y"]) simp_all
    qed
  qed
qed

lemma tbf_refill_inv:
  assumes "tbf_inv tb" and "tbf_lastRefillTime tb \<le> now"
  shows "tbf_inv (tbf_refill tb now)"
proof -
  from assms(1) obtain c r k where f: "tbf_capacity tb = Finite c" "tbf_refillRate tb = Finite r"
    "tbf_tokens tb = Finite k" "0 \<le> r" "0 \<le> k" "k \<le> c" "round64 k = k"
    "round64 c = c" "c < 2 ^ 1024"
    by (rule tbf_invE)
  from assms obtain c' v where v: "tbf_capacity tb = Finite c'"
    "tbf_tokens (tbf_refill tb now) = Finite v" "0 \<le> v" "v \<le> c'" "round64 v = v"
    by (rule tbf_refill_tokens)
  from v(1) f(1) have c': "c' = c" by simp
  show ?thesis
  proof (rule tbf_invI)
    show "tbf_capacity (tbf_refill tb now) = Finite c" by (simp add: tbf_refill_fields f)
    show "tbf_refillRate (tbf_refill tb now) = Finite r" by (simp add: tbf_refill_fields f)
    show "tbf_tokens (tbf_refill tb now) = Finite v" by (rule v(2))
    show "v \<le> c" using v(4) c' by simp
  qed (use f v in simp_all)
qed

lemma tbf_take_inv:
  assumes "tbf_inv tb" and "f64_le (Finite 1) (tbf_tokens tb)"
  shows "tbf_inv (tb\<lparr>tbf_tokens := f64_sub (tbf_tokens tb) (Finite 1)\<rparr>)"
proof -
  from assms(1) obtain c r k where f: "tbf_capacity tb = Finite c" "tbf_refillRate tb = Finite r"
    "tbf_tokens tb = Finite k" "0 \<le> r" "0 \<le> k" "k \<le> c" "round64 k = k"
    "round64 c = c" "c < 2 ^ 1024"
    by (rule tbf_invE)
  from assms(2) have k1: "1 \<le> k" by (simp add: f f64_le_Finite)
  let ?y = "round64 (k - 1)"
  have lo: "0 \<le> ?y" using k1 by (intro round64_nonneg) simp
  have "?y \<le> round64 k" by (intro round64_mono) simp
  then have hi: "?y \<le> k" by (simp add: f(7))
  from lo hi f(6,9) have "\<bar>?y\<bar> < 2 ^ 1024" by linarith
  then have fl: "fl (k - 1) = Finite ?y" by (intro fl_Finite) simp_all
  show ?thesis
  proof (rule tbf_invI)
    show "tbf_tokens (tb\<lparr>tbf_tokens := f64_sub (tbf_tokens tb) (Finite 1)\<rparr>) = Finite ?y"
      by (simp add: f f64_sub_def fl)
    show "?y \<le> c" using hi f(6) by simp
  qed (use f lo in simp_all)
qed

lemma tbf_step_inv:
  assumes "tbf_inv tb" and "tbf_lastRefillTime tb \<le> snd c"
  shows "tbf_inv (tbf_step tb c) \<and> tbf_lastRefillTime (tbf_step tb c) = snd c
         \<and> tbf_capacity (tbf_step tb c) = tbf_capacity tb"
proof -
  obtain k now where c: "c = (k, now)" by (cases c)
  have l: "tbf_inv (tbf_refill tb now)" using assms c by (intro tbf_refill_inv) simp_all
  show ?thesis
  proof (cases k)
    case TB_AllowRequest
    show ?thesis
    proof (cases "f64_le (Finite 1) (tbf_tokens (tbf_refill tb now))")
      case True
      from tbf_take_inv [OF l True] True show ?thesis
        by (simp add: c TB_AllowRequest tbf_AllowRequest_def Let_def tbf_refill_fields)
    next
      case False
      with l show ?thesis
        by (simp add: c TB_AllowRequest tbf_AllowRequest_def Let_def tbf_refill_fields)
    qed
  next
    case TB_GetTokens
    with l show ?thesis by (simp add: c tbf_GetTokens_def Let_def tbf_refill_fields)
  qed
qed

lemma tbf_run_inv:
  "tbf_inv tb \<Longrightarrow> sorted (tbf_lastRefillTime tb # map snd cs) \<Longrightarrow>
   tbf_inv (tbf_run tb cs) \<and> tbf_capacity (tbf_run tb cs) = tbf_capacity tb"
proof (induction cs arbitrary: tb)
  case Nil
  then show ?case by simp
next
  case (Cons c cs)
  from Cons.prems have le: "tbf_lastRefillTime tb \<le> snd c" by simp
  note st = tbf_step_inv [OF Cons.prems(1) le]
  from Cons.prems(2) st have "sorted (tbf_lastRefillTime (tbf_step tb c) # map snd cs)"
    by simp
  with Cons.IH [of "tbf_step tb c"] st show ?case by simp
qed

text \<open>
  In binary64 arithmetic too, a token bucket built with a finite \<open>capacity \<ge> 0\<close> and a
  finite \<open>refillRate \<ge> 0\<close> starts full and, after every sequence of \<open>AllowRequest\<close> and
  \<open>GetTokens\<close> calls at non-decreasing clock readings, holds a level between 0 and the
  capacity.
\<close>

theorem tbf_tokens_bounds:
  assumes "is_f64 (Finite c)" and "0 \<le> c" and "0 \<le> r" and "sorted (t0 # map snd calls)"
  shows "tbf_tokens (NewTokenBucket_f64 (Finite c) (Finite r) t0) = Finite c
       \<and> f64_le (Finite 0) (tbf_tokens (tbf_run (NewTokenBucket_f64 (Finite c) (Finite r) t0) calls))
       \<and> f64_le (tbf_tokens (tbf_run (NewTokenBucket_f64 (Finite c) (Finite r) t0) calls))
                (Finite c)"
proof -
  let ?tb = "NewTokenBucket_f64 (Finite c) (Finite r) t0"
  have "tbf_inv ?tb" using assms(1-3) by (simp add: tbf_inv_def NewTokenBucket_f64_def)
  moreover have "sorted (tbf_lastRefillTime ?tb # map snd calls)"
    using assms(4) by (simp add: NewTokenBucket_f64_def)
  ultimately have inv: "tbf_inv (tbf_run ?tb calls)
      \<and> tbf_capacity (tbf_run ?tb calls) = tbf_capacity ?tb"
    by (rule tbf_run_inv)
  then have "tbf_inv (tbf_run ?tb calls)" by simp
  then obtain c' r' k where f: "tbf_capacity (tbf_run ?tb calls) = Finite c'"
    "tbf_refillRate (tbf_run ?tb calls) = Finite r'"
    "tbf_tokens (tbf_run ?tb calls) = Finite k" "0 \<le> r'" "0 \<le> k" "k \<le> c'" "round64 k = k"
    "round64 c' = c'" "c' < 2 ^ 1024"
    by (rule tbf_invE)
  from inv f(1) have "c' = c" by (simp add: NewTokenBucket_f64_def)
  with f show ?thesis by (simp add: f64_le_Finite NewTokenBucket_f64_def)
qed

theorem tbf_tokens_bounds_witness:
  "is_f64 (Finite 2) \<and> (0::real) \<le> 2 \<and> (0::real) \<le> 1
   \<and> f64_le (Finite 0) (tbf_tokens (tbf_run (NewTokenBucket_f64 (Finite 2) (Finite 1) 0)
        [(TB_AllowRequest, 0), (TB_AllowRequest, 0), (TB_AllowRequest, 0),
         (TB_GetTokens, 9000000000)]))
   \<and> f64_le (tbf_tokens (tbf_run (NewTokenBucket_f64 (Finite 2) (Finite 1) 0)
        [(TB_AllowRequest, 0), (TB_AllowRequest, 0), (TB_AllowRequest, 0),
         (TB_GetTokens, 9000000000)])) (Finite 2)"
proof -
  have r: "round64 2 = 2" using round64_of_int [of 2] by simp
  have "is_f64 (Finite 2)" by (simp add: r)
  with tbf_tokens_bounds [of 2 1 0
      "[(TB_AllowRequest, 0), (TB_AllowRequest, 0), (TB_AllowRequest, 0),
        (TB_GetTokens, 9000000000)]"]
  show ?thesis by simp
qed

section \<open>A leaky bucket of capacity 0 in binary64\<close>

lemma lbf_leak_dry:
  assumes "lbf_dry lb" and "lbf_lastTime lb \<le> now"
  shows "lbf_water (lbf_leak lb now) = Finite 0"
proof -
  from assms(1) obtain r where r: "lbf_leakRate lb = Finite r" "0 \<le> r"
    "lbf_water lb = Finite 0"
    by (cases "lbf_leakRate lb") (simp_all add: lbf_dry_def)
  from subMono_range [OF assms(2)] Seconds_f64_nonneg
  obtain e where e: "Seconds_f64 (subMono now (lbf_lastTime lb)) = Finite e" "0 \<le> e"
    by blast
  have er: "0 \<le> round64 (e * r)" using e(2) r(2) by (intro round64_nonneg) simp
  have water: "lbf_water (lbf_leak lb now)
      = f64_max (Finite 0) (f64_sub (Finite 0) (fl (e * r)))"
    by (simp add: lbf_leak_def Let_def e r)
  show ?thesis
  proof (cases "e * r" rule: fl_cases)
    case 1
    then show ?thesis by (simp add: water f64_sub_def)
  next
    case 2
    with er show ?thesis by simp
  next
    case 3
    let ?l = "round64 (e * r)"
    have "round64 (- ?l) = - ?l" by (simp add: round64_minus)
    then have "fl (- ?l) = Finite (- ?l)" using 3(2) by (intro fl_Finite) simp_all
    with er show ?thesis by (simp add: water 3 f64_sub_def)
  qed
qed

lemma lbf_step_dry:
  assumes "lbf_dry lb" and "lbf_lastTime lb \<le> snd c"
  shows "lbf_dry (lbf_step lb c) \<and> lbf_lastTime (lbf_step lb c) = snd c"
proof -
  obtain k now where c: "c = (k, now)" by (cases c)
  have w: "lbf_water (lbf_leak lb now) = Finite 0"
    using assms c by (intro lbf_leak_dry) simp_all
  show ?thesis
    using w assms(1) c
    by (cases k) (simp_all add: lbf_dry_def lbf_AllowRequest_def lbf_GetWaterLevel_def
        lbf_GetCapacityUsed_def Let_def lbf_leak_fields)
qed

lemma lbf_run_dry:
  "lbf_dry lb \<Longrightarrow> sorted (lbf_lastTime lb # map snd cs @ [now]) \<Longrightarrow>
   lbf_dry (lbf_run lb cs) \<and> lbf_lastTime (lbf_run lb cs) \<le> now"
proof (induction cs arbitrary: lb)
  case Nil
  then show ?case by simp
next
  case (Cons c cs)
  from Cons.prems have le: "lbf_lastTime lb \<le> snd c" by simp
  note st = lbf_step_dry [OF Cons.prems(1) le]
  from Cons.prems(2) st have "sorted (lbf_lastTime (lbf_step lb c) # map snd cs @ [now])"
    by simp
  with Cons.IH [of "lbf_step lb c"] st show ?case by simp
qed

text \<open>
  In binary64 arithmetic too, \<open>GetCapacityUsed\<close> of a leaky bucket built with capacity 0
  and a finite \<open>leakRate \<ge> 0\<close> returns NaN after any history: the water stays at 0 and the
  operation computes \<open>(0 / 0) * 100\<close>.
\<close>

theorem lbf_GetCapacityUsed_zero_capacity:
  assumes "0 \<le> r" and "sorted (t0 # map snd calls @ [now])"
  shows "fst (lbf_GetCapacityUsed
                (lbf_run (NewLeakyBucket_f64 (Finite 0) (Finite r) t0) calls) now) = NaN"
proof -
  let ?lb = "lbf_run (NewLeakyBucket_f64 (Finite 0) (Finite r) t0) calls"
  have "lbf_dry (NewLeakyBucket_f64 (Finite 0) (Finite r) t0)"
    using assms(1) by (simp add: lbf_dry_def NewLeakyBucket_f64_def)
  moreover have "sorted (lbf_lastTime (NewLeakyBucket_f64 (Finite 0) (Finite r) t0)
      # map snd calls @ [now])"
    using assms(2) by (simp add: NewLeakyBucket_f64_def)
  ultimately have dry: "lbf_dry ?lb \<and> lbf_lastTime ?lb \<le> now" by (rule lbf_run_dry)
  then have "lbf_water (lbf_leak ?lb now) = Finite 0" by (intro lbf_leak_dry) simp_all
  moreover from dry have "lbf_capacity ?lb = Finite 0" by (simp add: lbf_dry_def)
  ultimately show ?thesis by (simp add: lbf_GetCapacityUsed_def Let_def lbf_leak_fields)
qed

theorem lbf_GetCapacityUsed_zero_capacity_witness:
  "(0::real) \<le> 1
   \<and> fst (lbf_GetCapacityUsed
            (lbf_run (NewLeakyBucket_f64 (Finite 0) (Finite 1) 0)
               [(LB_AllowRequest, 0), (LB_GetWaterLevel, 2000000000)]) 3000000000) = NaN"
  using lbf_GetCapacityUsed_zero_capacity [of 1 0
      "[(LB_AllowRequest, 0), (LB_GetWaterLevel, 2000000000)]" 3000000000]
  by simp

end
